theory Spec2Isabelle
  imports Main
begin

section \<open>JavaScript string primitives\<close>

text \<open>
  The editor component (\<^verbatim>\<open>Doc.tsx\<close>) works on JavaScript strings. A string is modelled as
  a \<^typ>\<open>string\<close>; one \<^typ>\<open>char\<close> stands for one code unit, so the model covers the code
  units below 256. Of the characters that \<^verbatim>\<open>\s\<close> and \<^verbatim>\<open>String.prototype.trim\<close> treat as
  white space, these are the ones in that range: TAB, LF, VT, FF, CR, SPACE and NBSP.
\<close>

definition LF :: char where
  "LF = CHR 0x0A"

definition CR :: char where
  "CR = CHR 0x0D"

definition isWhiteSpace :: "char \<Rightarrow> bool" where
  "isWhiteSpace c =
     (c = CHR 0x09 \<or> c = CHR 0x0A \<or> c = CHR 0x0B \<or> c = CHR 0x0C \<or> c = CHR 0x0D \<or>
      c = CHR '' '' \<or> c = CHR 0xA0)"

text \<open>The characters that \<^verbatim>\<open>.\<close> does not match and after which \<^verbatim>\<open>^\<close> matches under \<^verbatim>\<open>/m\<close>.\<close>

definition isLineTerminator :: "char \<Rightarrow> bool" where
  "isLineTerminator c = (c = CHR 0x0A \<or> c = CHR 0x0D)"

definition isDigit :: "char \<Rightarrow> bool" where
  "isDigit c = (c \<in> set ''0123456789'')"

definition trimStart :: "string \<Rightarrow> string" where
  "trimStart s = dropWhile isWhiteSpace s"

definition trimEnd :: "string \<Rightarrow> string" where
  "trimEnd s = rev (dropWhile isWhiteSpace (rev s))"

definition trim :: "string \<Rightarrow> string" where
  "trim s = trimEnd (trimStart s)"

text \<open>\<^verbatim>\<open>text.replace(/\r\n?/g, "\n")\<close>\<close>

fun normalizeNewlines :: "string \<Rightarrow> string" where
  "normalizeNewlines [] = []"
| "normalizeNewlines [c] = [if c = CR then LF else c]"
| "normalizeNewlines (c # d # ds) =
     (if c = CR \<and> d = LF then LF # normalizeNewlines ds
      else if c = CR then LF # normalizeNewlines (d # ds)
      else c # normalizeNewlines (d # ds))"

text \<open>\<^verbatim>\<open>s.split("\n")\<close> and \<^verbatim>\<open>s.split(/\n/)\<close>: always at least one piece.\<close>

fun splitNl :: "string \<Rightarrow> string list" where
  "splitNl [] = [[]]"
| "splitNl (c # cs) =
     (if c = LF then [] # splitNl cs
      else (c # hd (splitNl cs)) # tl (splitNl cs))"

section \<open>Block segmentation: \<^verbatim>\<open>splitIntoBlocks\<close>\<close>

text \<open>\<^verbatim>\<open>/^#+\s/.test(line)\<close>: one or more \<^verbatim>\<open>#\<close> at the start, then a white space character.\<close>

definition isHeading :: "string \<Rightarrow> bool" where
  "isHeading line =
     (takeWhile (\<lambda>c. c = CHR ''#'') line \<noteq> [] \<and>
      (case dropWhile (\<lambda>c. c = CHR ''#'') line of
         [] \<Rightarrow> False
       | c # _ \<Rightarrow> isWhiteSpace c))"

text \<open>
  The state of the scanning loop is the pair of \<^verbatim>\<open>blocks\<close> and \<^verbatim>\<open>buffer\<close>.
  \<open>pushBuffer\<close> is the statement \<^verbatim>\<open>if (buffer.trim()) blocks.push(buffer.trim())\<close>.
\<close>

definition pushBuffer :: "string list \<Rightarrow> string \<Rightarrow> string list" where
  "pushBuffer blocks buffer = (if trim buffer \<noteq> [] then blocks @ [trim buffer] else blocks)"

definition scanLine :: "string list \<times> string \<Rightarrow> string \<Rightarrow> string list \<times> string" where
  "scanLine st line =
     (let blocks = fst st; buffer = snd st in
      if isHeading line then (pushBuffer blocks buffer @ [trim line], [])
      else if trim line = [] then
        (if trim buffer \<noteq> [] then (blocks @ [trim buffer], []) else (blocks, buffer))
      else (blocks, (if buffer \<noteq> [] then buffer @ [LF] else buffer) @ line))"

text \<open>
  The loop over \<^verbatim>\<open>lines\<close>, the final push of the buffer and \<^verbatim>\<open>filter(Boolean)\<close>.
\<close>

definition segmentLines :: "string list \<Rightarrow> string list" where
  "segmentLines lines =
     (let st = foldl scanLine ([], []) lines
      in filter (\<lambda>b. b \<noteq> []) (pushBuffer (fst st) (snd st)))"

definition splitIntoBlocks :: "string \<Rightarrow> string list" where
  "splitIntoBlocks text = segmentLines (splitNl (normalizeNewlines text))"

text \<open>\<^verbatim>\<open>lines.join("\n")\<close>\<close>

fun joinNl :: "string list \<Rightarrow> string" where
  "joinNl [] = []"
| "joinNl [l] = l"
| "joinNl (l # l' # ls) = l @ LF # joinNl (l' # ls)"

text \<open>
  Modelled from the spec: the \<open>join\<close> of the segmentation idempotence property, which the
  component does not implement. The blocks are recombined with one blank line between two
  blocks, the separator the segmenter splits on.
\<close>

fun joinBlocks :: "string list \<Rightarrow> string" where
  "joinBlocks [] = []"
| "joinBlocks [b] = b"
| "joinBlocks (b # b' # bs) = b @ LF # LF # joinBlocks (b' # bs)"

section \<open>List lines\<close>

text \<open>
  The list patterns are \<^verbatim>\<open>/^(\s*)([-*+] |\d+\. |- \[[ xX]\] )/m\<close> (Enter, rendering) and
  \<^verbatim>\<open>/^(\s*)([-*+] |\d+\. |- \[.\] )/m\<close> (Backspace). The three alternatives of the marker
  group are tried in this order; each function returns the length of the marker it matches
  at the start of the string. \<open>box\<close> is the character class between the brackets of a task
  item.
\<close>

definition bulletMarker :: "string \<Rightarrow> nat option" where
  "bulletMarker s =
     (case s of
        c # d # _ \<Rightarrow>
          if (c = CHR ''-'' \<or> c = CHR ''*'' \<or> c = CHR ''+'') \<and> d = CHR '' '' then Some 2 else None
      | _ \<Rightarrow> None)"

definition numberMarker :: "string \<Rightarrow> nat option" where
  "numberMarker s =
     (let n = length (takeWhile isDigit s)
      in if 0 < n \<and> take 2 (drop n s) = ''. '' then Some (n + 2) else None)"

definition taskMarker :: "(char \<Rightarrow> bool) \<Rightarrow> string \<Rightarrow> nat option" where
  "taskMarker box s =
     (case s of
        a # b # c # d # e # f # _ \<Rightarrow>
          if a = CHR ''-'' \<and> b = CHR '' '' \<and> c = CHR ''['' \<and> box d \<and> e = CHR '']'' \<and> f = CHR '' ''
          then Some 6 else None
      | _ \<Rightarrow> None)"

definition listMarker :: "(char \<Rightarrow> bool) \<Rightarrow> string \<Rightarrow> nat option" where
  "listMarker box s =
     (case bulletMarker s of
        Some n \<Rightarrow> Some n
      | None \<Rightarrow> (case numberMarker s of Some n \<Rightarrow> Some n | None \<Rightarrow> taskMarker box s))"

definition checkBox :: "char \<Rightarrow> bool" where
  "checkBox c = (c = CHR '' '' \<or> c = CHR ''x'' \<or> c = CHR ''X'')"

definition anyBox :: "char \<Rightarrow> bool" where
  "anyBox c = (\<not> isLineTerminator c)"

text \<open>
  \<^verbatim>\<open>(\s*)\<close> is greedy and every marker starts with a character that is not white space, so
  the pattern matches at a position exactly when a marker follows the longest run of
  white space there.
\<close>

definition markerAhead :: "(char \<Rightarrow> bool) \<Rightarrow> string \<Rightarrow> bool" where
  "markerAhead box s = (listMarker box (dropWhile isWhiteSpace s) \<noteq> None)"

text \<open>Under \<^verbatim>\<open>/m\<close>, \<^verbatim>\<open>^\<close> matches at the start of the text and after every line terminator.\<close>

fun afterTerminator :: "(string \<Rightarrow> bool) \<Rightarrow> string \<Rightarrow> bool" where
  "afterTerminator P [] = False"
| "afterTerminator P (c # cs) = ((isLineTerminator c \<and> P cs) \<or> afterTerminator P cs)"

definition testMultiline :: "(string \<Rightarrow> bool) \<Rightarrow> string \<Rightarrow> bool" where
  "testMultiline P s = (P s \<or> afterTerminator P s)"

definition isListBlock :: "string \<Rightarrow> bool" where
  "isListBlock text = testMultiline (markerAhead checkBox) text"

definition isListText :: "string \<Rightarrow> bool" where
  "isListText text = testMultiline (markerAhead anyBox) text"

text \<open>
  \<^verbatim>\<open>currentLineContent.match(/^(\s*)([-*+] |\d+\. |- \[[ xX]\] )(.*)/)\<close>: the groups
  \<^verbatim>\<open>indent\<close>, \<^verbatim>\<open>marker\<close> and \<^verbatim>\<open>content\<close>, or \<open>None\<close> when the line does not match.
\<close>

definition parseListLine :: "string \<Rightarrow> (string \<times> string \<times> string) option" where
  "parseListLine line =
     (let indent = takeWhile isWhiteSpace line; rest = dropWhile isWhiteSpace line
      in case listMarker checkBox rest of
           None \<Rightarrow> None
         | Some n \<Rightarrow>
             Some (indent, take n rest, takeWhile (\<lambda>c. \<not> isLineTerminator c) (drop n rest)))"

text \<open>\<^verbatim>\<open>s.indexOf(pat)\<close>: the first position where \<open>pat\<close> occurs, or \<open>-1\<close>.\<close>

fun indexOf :: "string \<Rightarrow> string \<Rightarrow> int" where
  "indexOf [] pat = (if pat = [] then 0 else - 1)"
| "indexOf (c # cs) pat =
     (if take (length pat) (c # cs) = pat then 0
      else (let r = indexOf cs pat in if r < 0 then - 1 else r + 1))"

text \<open>
  \<^verbatim>\<open>s.slice(0, e)\<close> and \<^verbatim>\<open>s.slice(b)\<close> for an integer that may be negative: a negative index
  counts from the end, and every index is clamped to the string.
\<close>

definition sliceIndex :: "nat \<Rightarrow> int \<Rightarrow> nat" where
  "sliceIndex len i = (if i < 0 then nat (max (int len + i) 0) else min (nat i) len)"

definition sliceTo :: "string \<Rightarrow> int \<Rightarrow> string" where
  "sliceTo s e = take (sliceIndex (length s) e) s"

definition sliceFrom :: "string \<Rightarrow> int \<Rightarrow> string" where
  "sliceFrom s b = drop (sliceIndex (length s) b) s"

text \<open>
  The loop that looks for the line under the caret: the first line of the block that
  equals the caret's \<^verbatim>\<open>data-line\<close> once both are trimmed. It returns the index and the line.
\<close>

fun findLine :: "string list \<Rightarrow> string \<Rightarrow> (nat \<times> string) option" where
  "findLine [] currentLine = None"
| "findLine (l # ls) currentLine =
     (if trim l = trim currentLine then Some (0, l)
      else (case findLine ls currentLine of
              None \<Rightarrow> None
            | Some (i, x) \<Rightarrow> Some (Suc i, x)))"

definition addLines :: "string list \<Rightarrow> string" where
  "addLines ls = concat (map (\<lambda>l. l @ [LF]) ls)"

text \<open>
  The text transformation of Enter in a list block: \<^verbatim>\<open>newMarkdown\<close>, or \<open>None\<close> where the
  handler returns before it writes anything.
\<close>

definition listEnterText :: "string \<Rightarrow> nat \<Rightarrow> string \<Rightarrow> string option" where
  "listEnterText blockMarkdown caretPos currentLine =
     (let lines = splitNl blockMarkdown in
      case findLine lines currentLine of
        None \<Rightarrow> None
      | Some (currentLineIndex, currentLineContent) \<Rightarrow>
          (case parseListLine currentLineContent of
             None \<Rightarrow> None
           | Some (indent, marker, content) \<Rightarrow>
               (let trimmedContent = trim content;
                    contentStart = indexOf currentLineContent trimmedContent;
                    offsetInContent = int caretPos - contentStart;
                    isAtEnd = (int (length trimmedContent) \<le> offsetInContent)
                in Some (trimEnd
                     (addLines (take currentLineIndex lines) @
                      (if isAtEnd then
                         currentLineContent @ [LF] @ indent @ marker @ ''&nbsp;'' @ [LF]
                       else
                         indent @ marker @ sliceTo trimmedContent offsetInContent @ [LF] @
                         indent @ marker @ sliceFrom trimmedContent offsetInContent @ [LF]) @
                      addLines (drop (Suc currentLineIndex) lines))))))"

section \<open>The document and its key handler\<close>

text \<open>
  The component state: \<^verbatim>\<open>doc\<close> maps a block id to its Markdown, \<^verbatim>\<open>allLines\<close> is the
  order of the ids, \<^verbatim>\<open>editingBlockIds\<close> is the set of blocks shown as source (a JavaScript
  \<^verbatim>\<open>Set\<close> iterates in insertion order, so it is a list here).
\<close>

record docState =
  doc :: "string \<rightharpoonup> string"
  allLines :: "string list"
  editingBlockIds :: "string list"

text \<open>
  The invariant of the document: \<^verbatim>\<open>allLines\<close> has no id twice, and its ids are exactly the
  keys of \<^verbatim>\<open>doc\<close>.
\<close>

definition docInv :: "docState \<Rightarrow> bool" where
  "docInv s = (distinct (allLines s) \<and> set (allLines s) = dom (doc s))"

text \<open>\<^verbatim>\<open>doc[id] || ""\<close>\<close>

definition textOr :: "(string \<rightharpoonup> string) \<Rightarrow> string \<Rightarrow> string" where
  "textOr m k = (case m k of None \<Rightarrow> [] | Some t \<Rightarrow> t)"

text \<open>\<^verbatim>\<open>xs.indexOf(x)\<close> on an array.\<close>

fun arrayIndexOf :: "'a list \<Rightarrow> 'a \<Rightarrow> int" where
  "arrayIndexOf [] x = - 1"
| "arrayIndexOf (y # ys) x =
     (if y = x then 0 else (let r = arrayIndexOf ys x in if r < 0 then - 1 else r + 1))"

text \<open>\<^verbatim>\<open>xs[i]\<close> on an array: \<^verbatim>\<open>undefined\<close> out of range.\<close>

definition arrayAt :: "'a list \<Rightarrow> int \<Rightarrow> 'a option" where
  "arrayAt xs i = (if 0 \<le> i \<and> nat i < length xs then Some (xs ! nat i) else None)"

text \<open>
  \<^verbatim>\<open>xs.splice(start, 1, ...items)\<close>, the array afterwards. A negative \<^verbatim>\<open>start\<close> counts from
  the end, so \<^verbatim>\<open>splice(-1, 1)\<close> removes the last element.
\<close>

definition spliceOne :: "int \<Rightarrow> 'a list \<Rightarrow> 'a list \<Rightarrow> 'a list" where
  "spliceOne start items xs =
     (let from = sliceIndex (length xs) start
      in take from xs @ items @ drop (Suc from) xs)"

text \<open>
  What the handler reads from the browser when a key goes down. \<open>blockId\<close> is \<open>None\<close> when
  there is no selection or no enclosing \<^verbatim>\<open>.m2-block\<close> element. The other fields are the
  reads on that block: \<^verbatim>\<open>htmlToMarkdown(block)\<close>, the caret offset found by the tree walker,
  \<^verbatim>\<open>isCaretAtStartOfBlock(block, sel)\<close>, whether \<^verbatim>\<open>block.textContent\<close> is empty or the
  zero-width space alone, \<^verbatim>\<open>range.startOffset\<close>, and the \<^verbatim>\<open>data-line\<close> attribute of the
  element around the caret (\<open>None\<close> when it has none). \<open>caretLine\<close> is the position of that
  element among the line elements of the block, counted from 0; the handler reads the
  element's \<^verbatim>\<open>data-line\<close> only, so no definition below uses \<open>caretLine\<close>: it is there to say
  which line the caret is on.
\<close>

record keyEvent =
  key :: string
  shiftKey :: bool
  blockId :: "string option"
  blockMarkdown :: string
  caretPos :: nat
  caretAtStart :: bool
  textEmpty :: bool
  startOffset :: nat
  dataLine :: "string option"
  caretLine :: nat

datatype branch =
  NoBlock | ListEnter | BlockSplit | LiteralNewline | BackwardMerge | EmptyDelete
  | SecondMerge | NoBranch

text \<open>Where the deferred callback of a handler puts the caret.\<close>

datatype caretRequest = CaretOffset string nat | CaretStart string | CaretEnd string

record keyResult =
  taken :: branch
  after :: docState
  caret :: "caretRequest option"

definition orEmpty :: "string list \<Rightarrow> string list" where
  "orEmpty blocks = (if blocks = [] then [[]] else blocks)"

definition beforeBlocks :: "string \<Rightarrow> nat \<Rightarrow> string list" where
  "beforeBlocks markdown pos = orEmpty (splitIntoBlocks (take pos markdown))"

definition afterBlocks :: "string \<Rightarrow> nat \<Rightarrow> string list" where
  "afterBlocks markdown pos = orEmpty (splitIntoBlocks (drop pos markdown))"

text \<open>
  \<^verbatim>\<open>shortid.generate()\<close> is a collaborator: \<open>gen i\<close> is the id that its \<open>i\<close>-th call in
  the handler returns.
\<close>

definition generatedIds :: "(nat \<Rightarrow> string) \<Rightarrow> string \<Rightarrow> nat \<Rightarrow> string list" where
  "generatedIds gen markdown pos =
     map gen [0 ..< length (beforeBlocks markdown pos) - 1 + length (afterBlocks markdown pos)]"

definition newIds :: "(nat \<Rightarrow> string) \<Rightarrow> string \<Rightarrow> string \<Rightarrow> nat \<Rightarrow> string list" where
  "newIds gen bid markdown pos = bid # generatedIds gen markdown pos"

text \<open>
  \<^verbatim>\<open>handleBlockSplit\<close>: the two loops assign the blocks to the ids in order, the ids
  replace the block's entry in \<^verbatim>\<open>allLines\<close>, and the first block of the second half gets
  the focus and the caret.
\<close>

definition handleBlockSplit ::
  "(nat \<Rightarrow> string) \<Rightarrow> string \<Rightarrow> string \<Rightarrow> nat \<Rightarrow> docState \<Rightarrow> keyResult" where
  "handleBlockSplit gen bid markdown pos s =
     (if bid = [] then \<lparr>taken = BlockSplit, after = s, caret = None\<rparr>
      else
        let bs = beforeBlocks markdown pos;
            as = afterBlocks markdown pos;
            ids = newIds gen bid markdown pos;
            docUpdate = ((doc s)(take (length bs) ids [\<mapsto>] bs))
                          (take (length as) (drop (length bs) ids) [\<mapsto>] as);
            allBlockIds = take (length bs) ids @ take (length as) (drop (length bs) ids);
            idx = arrayIndexOf (allLines s) bid;
            focus = ids ! length bs
        in \<lparr>taken = BlockSplit,
            after = \<lparr>doc = docUpdate,
                     allLines = spliceOne idx allBlockIds (allLines s),
                     editingBlockIds = [focus]\<rparr>,
            caret = Some (CaretStart focus)\<rparr>)"

text \<open>
  The body shared by the two Backspace branches; \<open>listAware\<close> is whether the branch looks
  at the list patterns before it joins.
\<close>

definition mergeIntoPrevious :: "bool \<Rightarrow> branch \<Rightarrow> string \<Rightarrow> docState \<Rightarrow> keyResult" where
  "mergeIntoPrevious listAware b bid s =
     (let idx = arrayIndexOf (allLines s) bid in
      if 0 < idx then
        let prevId = allLines s ! (nat idx - 1);
            prevText = textOr (doc s) prevId;
            currText = textOr (doc s) bid;
            mergedText = (if listAware \<and> isListText prevText \<and> isListText currText
                          then prevText @ [LF] @ currText
                          else prevText @ currText)
        in \<lparr>taken = b,
            after = \<lparr>doc = ((doc s)(prevId \<mapsto> mergedText))(bid := None),
                     allLines = spliceOne idx [] (allLines s),
                     editingBlockIds = [prevId]\<rparr>,
            caret = Some (CaretOffset prevId (length prevText))\<rparr>
      else \<lparr>taken = b, after = s, caret = None\<rparr>)"

definition deleteEmptyBlock :: "string \<Rightarrow> docState \<Rightarrow> keyResult" where
  "deleteEmptyBlock bid s =
     (let idx = arrayIndexOf (allLines s) bid;
          newAllLines = spliceOne idx [] (allLines s);
          focus =
            (if newAllLines \<noteq> [] then
               (if idx < int (length newAllLines) then
                  map_option (\<lambda>f. (f, False)) (arrayAt newAllLines idx)
                else if 0 \<le> idx - 1 then
                  map_option (\<lambda>f. (f, True)) (arrayAt newAllLines (idx - 1))
                else None)
             else None);
          s' = s\<lparr>doc := (doc s)(bid := None), allLines := newAllLines\<rparr>
      in case focus of
           Some (focusId, focusAtEnd) \<Rightarrow>
             if focusId \<noteq> [] then
               \<lparr>taken = EmptyDelete,
                after = s'\<lparr>editingBlockIds := [focusId]\<rparr>,
                caret = Some (if focusAtEnd then CaretEnd focusId else CaretStart focusId)\<rparr>
             else \<lparr>taken = EmptyDelete, after = s', caret = None\<rparr>
         | None \<Rightarrow> \<lparr>taken = EmptyDelete, after = s', caret = None\<rparr>)"

text \<open>
  Shift+Enter appends a newline to the first editing block; \<^verbatim>\<open>prev[id] + "\n"\<close> on a missing
  key concatenates \<^verbatim>\<open>undefined\<close>.
\<close>

definition literalNewline :: "docState \<Rightarrow> keyResult" where
  "literalNewline s =
     (case editingBlockIds s of
        [] \<Rightarrow> \<lparr>taken = LiteralNewline, after = s, caret = None\<rparr>
      | bid # _ \<Rightarrow>
          if bid = [] then \<lparr>taken = LiteralNewline, after = s, caret = None\<rparr>
          else \<lparr>taken = LiteralNewline,
                after = s\<lparr>doc := (doc s)(bid \<mapsto>
                  (case doc s bid of None \<Rightarrow> ''undefined'' | Some t \<Rightarrow> t) @ [LF])\<rparr>,
                caret = None\<rparr>)"

definition listEnter :: "keyEvent \<Rightarrow> string \<Rightarrow> docState \<Rightarrow> keyResult" where
  "listEnter e bid s =
     (case dataLine e of
        None \<Rightarrow> \<lparr>taken = ListEnter, after = s, caret = None\<rparr>
      | Some currentLine \<Rightarrow>
          (case listEnterText (blockMarkdown e) (startOffset e) currentLine of
             None \<Rightarrow> \<lparr>taken = ListEnter, after = s, caret = None\<rparr>
           | Some newMarkdown \<Rightarrow>
               \<lparr>taken = ListEnter,
                after = s\<lparr>doc := (doc s)(bid \<mapsto> newMarkdown)\<rparr>,
                caret = None\<rparr>))"

text \<open>The \<^verbatim>\<open>if\<close> / \<^verbatim>\<open>else if\<close> chain of \<^verbatim>\<open>handleKeyDown\<close>, in the source's order.\<close>

definition handleKeyDown :: "(nat \<Rightarrow> string) \<Rightarrow> keyEvent \<Rightarrow> docState \<Rightarrow> keyResult" where
  "handleKeyDown gen e s =
     (case blockId e of
        None \<Rightarrow> \<lparr>taken = NoBlock, after = s, caret = None\<rparr>
      | Some bid \<Rightarrow>
          if bid = [] then \<lparr>taken = NoBlock, after = s, caret = None\<rparr>
          else if key e = ''Enter'' \<and> \<not> shiftKey e then
            (if isListBlock (blockMarkdown e) then listEnter e bid s
             else handleBlockSplit gen bid (blockMarkdown e) (caretPos e) s)
          else if key e = ''Enter'' \<and> shiftKey e then literalNewline s
          else if key e = ''Backspace'' \<and> caretAtStart e then
            mergeIntoPrevious True BackwardMerge bid s
          else if (key e = ''Backspace'' \<or> key e = ''Delete'') \<and> textEmpty e then
            deleteEmptyBlock bid s
          else if key e = ''Backspace'' \<and> caretAtStart e then
            mergeIntoPrevious False SecondMerge bid s
          else \<lparr>taken = NoBranch, after = s, caret = None\<rparr>)"

section \<open>The formatting commands\<close>

text \<open>
  An element of the page, as far as \<^verbatim>\<open>closest\<close> and \<^verbatim>\<open>getAttribute\<close> look at it: its tag and
  its attributes.
\<close>

record element =
  tagName :: string
  attributes :: "(string \<times> string) list"

definition getAttribute :: "element \<Rightarrow> string \<Rightarrow> string option" where
  "getAttribute el name = map_of (attributes el) name"

text \<open>
  \<^verbatim>\<open>el.closest("[name]")\<close>: the first element that has the attribute, in the chain of \<^verbatim>\<open>el\<close>
  and its ancestors, innermost first.
\<close>

definition closest :: "string \<Rightarrow> element list \<Rightarrow> element option" where
  "closest name chain = find (\<lambda>el. getAttribute el name \<noteq> None) chain"

text \<open>
  What \<^verbatim>\<open>handleBold\<close> reads from the selection: \<^verbatim>\<open>isCollapsed\<close>, the chain of
  \<^verbatim>\<open>range.startContainer.parentElement\<close> and its ancestors (empty when there is no parent
  element), \<^verbatim>\<open>range.toString()\<close>, \<^verbatim>\<open>range.startOffset\<close> and \<^verbatim>\<open>range.endOffset\<close>.
\<close>

record selection =
  isCollapsed :: bool
  startAncestors :: "element list"
  selectedText :: string
  rangeStart :: nat
  rangeEnd :: nat

text \<open>
  The body that \<^verbatim>\<open>handleBold\<close> and \<^verbatim>\<open>handleItalic\<close> share, the second argument being \<open>None\<close>
  when \<^verbatim>\<open>window.getSelection()\<close> returns nothing. Every early \<^verbatim>\<open>return\<close> leaves the document
  as it is.
\<close>

definition wrapSelection :: "string \<Rightarrow> selection option \<Rightarrow> docState \<Rightarrow> docState" where
  "wrapSelection mark sel s =
     (case sel of
        None \<Rightarrow> s
      | Some rng \<Rightarrow>
          if isCollapsed rng then s
          else
            (case closest ''data-block-id'' (startAncestors rng) of
               None \<Rightarrow> s
             | Some blockEl \<Rightarrow>
                 (case getAttribute blockEl ''data-block-id'' of
                    None \<Rightarrow> s
                  | Some bid \<Rightarrow>
                      if bid = [] then s
                      else
                        (case doc s bid of
                           None \<Rightarrow> s
                         | Some blockContent \<Rightarrow>
                             if blockContent = [] then s
                             else if selectedText rng = [] then s
                             else s\<lparr>doc := (doc s)(bid \<mapsto>
                                    take (rangeStart rng) blockContent @
                                    mark @ selectedText rng @ mark @
                                    drop (rangeEnd rng) blockContent)\<rparr>))))"

definition handleBold :: "selection option \<Rightarrow> docState \<Rightarrow> docState" where
  "handleBold = wrapSelection ''**''"

definition handleItalic :: "selection option \<Rightarrow> docState \<Rightarrow> docState" where
  "handleItalic = wrapSelection ''*''"

text \<open>
  The elements that the component renders around the text of a block. \<^verbatim>\<open>renderBlocks\<close>
  gives a block in edit mode the attributes \<^verbatim>\<open>id\<close>, \<^verbatim>\<open>class\<close> and \<^verbatim>\<open>contenteditable\<close> and
  renders each of its lines as a \<^verbatim>\<open>span\<close> with \<^verbatim>\<open>data-line\<close>; a block in view mode gets
  \<^verbatim>\<open>id\<close>, \<^verbatim>\<open>class\<close> and \<^verbatim>\<open>tabindex\<close>. The component wraps the blocks in three \<^verbatim>\<open>div\<close>
  elements, and \<^verbatim>\<open>DocContainer\<close> wraps the component in one more.
\<close>

definition lineSpan :: "string \<Rightarrow> element" where
  "lineSpan line = \<lparr>tagName = ''span'', attributes = [(''data-line'', line)]\<rparr>"

definition blockElement :: "docState \<Rightarrow> string \<Rightarrow> element" where
  "blockElement s bid =
     (if bid \<in> set (editingBlockIds s) then
        \<lparr>tagName = ''div'',
         attributes = [(''id'', bid), (''class'', ''m2-block m2-edit-mode''),
                       (''contenteditable'', ''true'')]\<rparr>
      else
        \<lparr>tagName = ''div'',
         attributes = [(''id'', bid), (''class'', ''m2-block''), (''tabindex'', ''0'')]\<rparr>)"

definition docContainers :: "element list" where
  "docContainers =
     [\<lparr>tagName = ''div'',
       attributes = [(''id'', ''m2-doc''), (''class'', ''m2-doc content''),
                     (''contenteditable'', ''true'')]\<rparr>,
      \<lparr>tagName = ''div'', attributes = [(''class'', ''m2-doc-container'')]\<rparr>,
      \<lparr>tagName = ''div'', attributes = [(''class'', ''m2-doc'')]\<rparr>,
      \<lparr>tagName = ''div'', attributes = []\<rparr>]"

text \<open>
  The chain of \<^verbatim>\<open>startContainer.parentElement\<close> for a selection that starts in the text of
  a line of an edit-mode block.
\<close>

definition renderedAncestors :: "docState \<Rightarrow> string \<Rightarrow> string \<Rightarrow> element list" where
  "renderedAncestors s bid line = lineSpan line # blockElement s bid # docContainers"

section \<open>Example documents and events\<close>

text \<open>Concrete documents, key events and an id generator for the examples below.\<close>

definition gen0 :: "nat \<Rightarrow> string" where
  "gen0 i = CHR ''n'' # replicate i CHR ''x''"

definition singleBlock :: "string \<Rightarrow> docState" where
  "singleBlock t = \<lparr>doc = [''a'' \<mapsto> t], allLines = [''a''], editingBlockIds = [''a'']\<rparr>"

definition twoBlocks :: "string \<Rightarrow> string \<Rightarrow> docState" where
  "twoBlocks t u =
     \<lparr>doc = [''a'' \<mapsto> t, ''b'' \<mapsto> u], allLines = [''a'', ''b''], editingBlockIds = [''b'']\<rparr>"

definition enterAt :: "string \<Rightarrow> string \<Rightarrow> nat \<Rightarrow> keyEvent" where
  "enterAt bid markdown pos =
     \<lparr>key = ''Enter'', shiftKey = False, blockId = Some bid, blockMarkdown = markdown,
      caretPos = pos, caretAtStart = (pos = 0), textEmpty = (markdown = []),
      startOffset = pos, dataLine = None, caretLine = 0\<rparr>"

definition backspaceAtStart :: "string \<Rightarrow> keyEvent" where
  "backspaceAtStart bid =
     \<lparr>key = ''Backspace'', shiftKey = False, blockId = Some bid, blockMarkdown = [],
      caretPos = 0, caretAtStart = True, textEmpty = False, startOffset = 0, dataLine = None,
      caretLine = 0\<rparr>"

definition deleteIn :: "string \<Rightarrow> keyEvent" where
  "deleteIn bid =
     \<lparr>key = ''Delete'', shiftKey = False, blockId = Some bid, blockMarkdown = [],
      caretPos = 0, caretAtStart = False, textEmpty = True, startOffset = 0, dataLine = None,
      caretLine = 0\<rparr>"

definition state0 :: docState where
  "state0 = twoBlocks ''foo'' ''bar''"

definition listState0 :: docState where
  "listState0 = twoBlocks ''- x'' ''1. y''"

definition listEnterAt :: "string \<Rightarrow> string \<Rightarrow> nat \<Rightarrow> string \<Rightarrow> keyEvent" where
  "listEnterAt bid markdown pos line =
     \<lparr>key = ''Enter'', shiftKey = False, blockId = Some bid, blockMarkdown = markdown,
      caretPos = pos, caretAtStart = False, textEmpty = False,
      startOffset = pos, dataLine = Some line, caretLine = 0\<rparr>"


definition selectIn :: "docState \<Rightarrow> string \<Rightarrow> string \<Rightarrow> nat \<Rightarrow> nat \<Rightarrow> selection" where
  "selectIn s bid line i j =
     \<lparr>isCollapsed = False, startAncestors = renderedAncestors s bid line,
      selectedText = take (j - i) (drop i line), rangeStart = i, rangeEnd = j\<rparr>"

section \<open>Notions used in the proofs\<close>

text \<open>
  A line is \<open>okLine\<close> when the scanning loop appends it to the buffer; a \<open>goodLine\<close> also
  stays so once its leading white space is stripped. A block is \<open>stable\<close> when segmenting it
  again returns it alone. \<open>scanInv\<close> is the invariant of the scanning loop behind the
  idempotence proof.
\<close>

definition nonBlank :: "string \<Rightarrow> bool" where
  "nonBlank s = (\<exists>c \<in> set s. \<not> isWhiteSpace c)"

definition okLine :: "string \<Rightarrow> bool" where
  "okLine l = (LF \<notin> set l \<and> nonBlank l \<and> \<not> isHeading l)"

definition goodLine :: "string \<Rightarrow> bool" where
  "goodLine l = (okLine l \<and> CR \<notin> set l \<and> \<not> isHeading (trimStart l))"

definition stable :: "string \<Rightarrow> bool" where
  "stable b = (b \<noteq> [] \<and> CR \<notin> set b \<and> segmentLines (splitNl b) = [b])"

definition scanInv :: "string list \<times> string \<Rightarrow> bool" where
  "scanInv st =
     ((\<forall>b \<in> set (fst st). stable b) \<and>
      (\<exists>ks. (\<forall>l \<in> set ks. goodLine l) \<and> snd st = joinNl ks))"

definition plainLine :: "string \<Rightarrow> bool" where
  "plainLine l = (LF \<notin> set l \<and> CR \<notin> set l \<and> (isHeading (trimStart l) \<longrightarrow> isHeading l))"

definition bufOk :: "string \<Rightarrow> bool" where
  "bufOk buf = (buf = [] \<or> nonBlank buf)"

section \<open>Properties of the segmenter\<close>

lemma scanLine_blocks_prefix:
  "scanLine (acc @ bs, buf) l = (acc @ fst (scanLine (bs, buf) l), snd (scanLine (bs, buf) l))"
  by (simp add: scanLine_def pushBuffer_def Let_def)

lemma foldl_scanLine_prefix:
  "foldl scanLine (acc @ bs, buf) ls =
     (acc @ fst (foldl scanLine (bs, buf) ls), snd (foldl scanLine (bs, buf) ls))"
proof (induction ls arbitrary: bs buf)
  case Nil
  show ?case by simp
next
  case (Cons l ls)
  obtain bs' buf' where s: "scanLine (bs, buf) l = (bs', buf')"
    by (cases "scanLine (bs, buf) l")
  have "scanLine (acc @ bs, buf) l = (acc @ bs', buf')"
    using scanLine_blocks_prefix [of acc bs buf l] s by simp
  with s Cons.IH [of bs' buf'] show ?case by simp
qed

lemma foldl_scanLine_from:
  "foldl scanLine (acc, buf) ls =
     (acc @ fst (foldl scanLine ([], buf) ls), snd (foldl scanLine ([], buf) ls))"
  using foldl_scanLine_prefix [of acc "[]" buf ls] by simp

lemma pushBuffer_prefix: "pushBuffer (acc @ bs) buf = acc @ pushBuffer bs buf"
  by (simp add: pushBuffer_def)

lemma isHeading_hd: "isHeading h \<Longrightarrow> \<exists>r. h = CHR ''#'' # r"
  by (cases h) (auto simp: isHeading_def split: if_splits)

lemma isWhiteSpace_hash [simp]: "\<not> isWhiteSpace CHR ''#''"
  by (simp add: isWhiteSpace_def)

lemma trimEnd_eq_Nil: "trimEnd s = [] \<longleftrightarrow> (\<forall>c \<in> set s. isWhiteSpace c)"
  by (auto simp: trimEnd_def dropWhile_eq_Nil_conv)

lemma trim_heading_nonempty: "isHeading h \<Longrightarrow> trim h \<noteq> []"
proof -
  assume "isHeading h"
  then obtain r where h: "h = CHR ''#'' # r" using isHeading_hd by blast
  then have "trimStart h = h" by (simp add: trimStart_def)
  moreover have "trimEnd h \<noteq> []" using h by (auto simp: trimEnd_eq_Nil)
  ultimately show ?thesis by (simp add: trim_def)
qed

text \<open>
  C5 (heading isolation). Whenever the normalised text has a line \<open>h\<close> that matches the
  heading pattern, with the lines \<open>pre\<close> before it and the lines \<open>post\<close> after it, the
  blocks of the text are: the blocks of \<open>pre\<close> segmented on their own (so the buffer open
  before the heading is closed), then the heading line as a block of its own (\<^verbatim>\<open>line.trim()\<close>,
  which for a heading line removes the white space at its end only), then the blocks of
  \<open>post\<close> segmented on their own from an empty buffer. No blank line around the heading is
  needed.
\<close>

theorem heading_isolated:
  assumes "splitNl (normalizeNewlines T) = pre @ h # post"
    and "isHeading h"
  shows "splitIntoBlocks T = segmentLines pre @ [trim h] @ segmentLines post \<and>
         trim h = trimEnd h"
proof -
  obtain r where "h = CHR ''#'' # r" using isHeading_hd [OF assms(2)] by blast
  then have "trimStart h = h" by (simp add: trimStart_def)
  then have te: "trim h = trimEnd h" by (simp add: trim_def)
  obtain bs buf where pre: "foldl scanLine ([], []) pre = (bs, buf)"
    by (cases "foldl scanLine ([], []) pre")
  obtain cs cuf where post: "foldl scanLine ([], []) post = (cs, cuf)"
    by (cases "foldl scanLine ([], []) post")
  have h: "scanLine (bs, buf) h = (pushBuffer bs buf @ [trim h], [])"
    using assms(2) by (simp add: scanLine_def)
  have "foldl scanLine ([], []) (pre @ h # post)
          = foldl scanLine (pushBuffer bs buf @ [trim h], []) post"
    using pre h by simp
  also have "\<dots> = ((pushBuffer bs buf @ [trim h]) @ cs, cuf)"
    using foldl_scanLine_from [of "pushBuffer bs buf @ [trim h]" "[]" post] post by simp
  finally have all: "foldl scanLine ([], []) (pre @ h # post)
          = ((pushBuffer bs buf @ [trim h]) @ cs, cuf)" .
  have "segmentLines (pre @ h # post)
          = filter (\<lambda>b. b \<noteq> []) ((pushBuffer bs buf @ [trim h]) @ pushBuffer cs cuf)"
    unfolding segmentLines_def Let_def all
    using pushBuffer_prefix [of "pushBuffer bs buf @ [trim h]" cs cuf] by simp
  also have "\<dots> = segmentLines pre @ [trim h] @ segmentLines post"
    using trim_heading_nonempty [OF assms(2)] pre post
    by (simp add: segmentLines_def)
  finally show ?thesis
    using assms(1) te by (simp add: splitIntoBlocks_def)
qed

theorem heading_isolated_witness:
  "splitIntoBlocks ''foo'' = [''foo''] \<and> splitIntoBlocks ''bar'' = [''bar''] \<and>
   splitIntoBlocks (''foo'' @ [LF] @ ''# Title'' @ [LF] @ ''bar'') = [''foo'', ''# Title'', ''bar'']"
proof -
  have l: "splitNl (normalizeNewlines (''foo'' @ [LF] @ ''# Title'' @ [LF] @ ''bar''))
             = [''foo''] @ ''# Title'' # [''bar'']"
    by (simp add: LF_def CR_def)
  have hd: "isHeading ''# Title''"
    by (simp add: isHeading_def isWhiteSpace_def)
  have a: "segmentLines [''foo''] = [''foo'']"
    by (simp add: segmentLines_def scanLine_def pushBuffer_def isHeading_def trim_def
        trimStart_def trimEnd_def isWhiteSpace_def)
  have b: "segmentLines [''bar''] = [''bar'']"
    by (simp add: segmentLines_def scanLine_def pushBuffer_def isHeading_def trim_def
        trimStart_def trimEnd_def isWhiteSpace_def)
  have t: "trim ''# Title'' = ''# Title''"
    by (simp add: trim_def trimStart_def trimEnd_def isWhiteSpace_def)
  have f: "splitIntoBlocks ''foo'' = [''foo'']"
    using a by (simp add: splitIntoBlocks_def LF_def CR_def)
  have g: "splitIntoBlocks ''bar'' = [''bar'']"
    using b by (simp add: splitIntoBlocks_def LF_def CR_def)
  show ?thesis
    using heading_isolated [OF l hd] a b t f g by simp
qed

section \<open>Re-segmenting the joined blocks\<close>

lemma trimStart_eq_Nil: "trimStart s = [] \<longleftrightarrow> \<not> nonBlank s"
  by (auto simp: trimStart_def nonBlank_def dropWhile_eq_Nil_conv)

lemma trimEnd_Nil_iff: "trimEnd s = [] \<longleftrightarrow> \<not> nonBlank s"
  by (auto simp: trimEnd_def nonBlank_def dropWhile_eq_Nil_conv)

lemma set_trimStart: "set (trimStart s) \<subseteq> set s"
  by (simp add: trimStart_def set_dropWhileD subsetI)

lemma set_trimEnd: "set (trimEnd s) \<subseteq> set s"
  unfolding trimEnd_def using set_dropWhileD by fastforce

lemma nonBlank_trimStart: "nonBlank (trimStart s) \<longleftrightarrow> nonBlank s"
proof
  assume "nonBlank (trimStart s)" then show "nonBlank s"
    using set_trimStart by (auto simp: nonBlank_def)
next
  assume "nonBlank s"
  then have "trimStart s \<noteq> []" by (simp add: trimStart_eq_Nil)
  then have "\<not> isWhiteSpace (hd (trimStart s))"
    unfolding trimStart_def using hd_dropWhile by blast
  with \<open>trimStart s \<noteq> []\<close> show "nonBlank (trimStart s)"
    unfolding nonBlank_def using hd_in_set by blast
qed

lemma trim_eq_Nil: "trim s = [] \<longleftrightarrow> \<not> nonBlank s"
  by (simp add: trim_def trimEnd_Nil_iff nonBlank_trimStart)

lemma trimEnd_Cons: "\<not> isWhiteSpace c \<Longrightarrow> trimEnd (c # r) = c # trimEnd r"
  by (simp add: trimEnd_def dropWhile_append)

lemma trimEnd_idem: "trimEnd (trimEnd s) = trimEnd s"
proof (cases "dropWhile isWhiteSpace (rev s)")
  case Nil
  then show ?thesis by (simp add: trimEnd_def)
next
  case (Cons c r)
  then have "\<not> isWhiteSpace c" using hd_dropWhile [of isWhiteSpace "rev s"] by auto
  with Cons show ?thesis by (simp add: trimEnd_def)
qed

lemma trimStart_trimEnd_fixed:
  assumes "trimStart x = x" shows "trimStart (trimEnd x) = trimEnd x"
proof (cases x)
  case Nil then show ?thesis by (simp add: trimEnd_def trimStart_def)
next
  case (Cons c r)
  with assms have "\<not> isWhiteSpace c"
    using hd_dropWhile [of isWhiteSpace x] by (auto simp: trimStart_def)
  then show ?thesis using Cons by (simp add: trimEnd_Cons trimStart_def)
qed

lemma trimStart_idem: "trimStart (trimStart s) = trimStart s"
  by (simp add: trimStart_def)

lemma trim_idem: "trim (trim s) = trim s"
  using trimStart_trimEnd_fixed [OF trimStart_idem, of s]
  by (simp add: trim_def trimEnd_idem)

lemma CR_neq_LF [simp]: "CR \<noteq> LF" "LF \<noteq> CR"
  by (simp_all add: CR_def LF_def)

lemma isWhiteSpace_LF [simp]: "isWhiteSpace LF"
  by (simp add: isWhiteSpace_def LF_def)

lemma normalizeNewlines_no_CR: "CR \<notin> set (normalizeNewlines s)"
  by (induction s rule: normalizeNewlines.induct) auto

lemma normalizeNewlines_id: "CR \<notin> set s \<Longrightarrow> normalizeNewlines s = s"
  by (induction s rule: normalizeNewlines.induct) auto

lemma splitNl_nonempty [simp]: "splitNl s \<noteq> []"
  by (induction s) auto

lemma splitNl_lines: "l \<in> set (splitNl s) \<Longrightarrow> LF \<notin> set l \<and> set l \<subseteq> set s"
proof (induction s arbitrary: l)
  case Nil
  then show ?case by simp
next
  case (Cons c cs)
  show ?case
  proof (cases "c = LF")
    case True
    with Cons show ?thesis by auto
  next
    case False
    have ne: "splitNl cs \<noteq> []" by simp
    from Cons.prems False have "l = c # hd (splitNl cs) \<or> l \<in> set (tl (splitNl cs))"
      by simp
    then show ?thesis
    proof
      assume l: "l = c # hd (splitNl cs)"
      have "hd (splitNl cs) \<in> set (splitNl cs)" using ne by simp
      from Cons.IH [OF this] l False show ?thesis by auto
    next
      assume "l \<in> set (tl (splitNl cs))"
      then have "l \<in> set (splitNl cs)" using ne by (meson list.set_sel(2))
      from Cons.IH [OF this] show ?thesis by auto
    qed
  qed
qed

lemma splitNl_append_LF: "splitNl (a @ LF # b) = splitNl a @ splitNl b"
proof (induction a)
  case Nil
  show ?case by simp
next
  case (Cons c cs)
  then show ?case by (cases "splitNl cs") auto
qed

lemma splitNl_single: "LF \<notin> set l \<Longrightarrow> splitNl l = [l]"
  by (induction l) auto

lemma splitNl_joinNl:
  "ls \<noteq> [] \<Longrightarrow> \<forall>l \<in> set ls. LF \<notin> set l \<Longrightarrow> splitNl (joinNl ls) = ls"
  by (induction ls rule: joinNl.induct) (auto simp: splitNl_single splitNl_append_LF)

lemma joinNl_snoc: "joinNl (ks @ [l]) = (if ks = [] then l else joinNl ks @ LF # l)"
  by (induction ks rule: joinNl.induct) auto

lemma set_joinNl: "set (joinNl ls) \<subseteq> \<Union> (set ` set ls) \<union> {LF}"
  by (induction ls rule: joinNl.induct) auto

lemma nonBlank_joinNl: "ls \<noteq> [] \<Longrightarrow> \<forall>l \<in> set ls. nonBlank l \<Longrightarrow> nonBlank (joinNl ls)"
  by (induction ls rule: joinNl.induct) (auto simp: nonBlank_def)

lemma nonBlank_nonempty: "nonBlank s \<Longrightarrow> s \<noteq> []"
  by (auto simp: nonBlank_def)

lemma scanLine_okLine:
  assumes "okLine l"
  shows "scanLine (bs, buf) l = (bs, (if buf \<noteq> [] then buf @ [LF] else buf) @ l)"
  using assms by (simp add: scanLine_def okLine_def trim_eq_Nil)

lemma scan_okLines:
  assumes "\<forall>l \<in> set ls. okLine l" and "\<forall>l \<in> set ks. nonBlank l"
  shows "foldl scanLine (bs, joinNl ks) ls = (bs, joinNl (ks @ ls))"
  using assms
proof (induction ls arbitrary: ks)
  case Nil
  show ?case by simp
next
  case (Cons l ls)
  have okl: "okLine l" using Cons.prems(1) by simp
  have ne: "joinNl ks \<noteq> [] \<longleftrightarrow> ks \<noteq> []"
    using nonBlank_joinNl [of ks] Cons.prems(2) nonBlank_nonempty by auto
  have step: "scanLine (bs, joinNl ks) l = (bs, joinNl (ks @ [l]))"
    using scanLine_okLine [OF okl, of bs "joinNl ks"] ne by (simp add: joinNl_snoc)
  have "\<forall>x \<in> set (ks @ [l]). nonBlank x"
    using Cons.prems(2) okl by (auto simp: okLine_def)
  from Cons.IH [OF _ this] Cons.prems(1) step show ?case by simp
qed

lemma segmentLines_okLines:
  assumes "ls \<noteq> []" and "\<forall>l \<in> set ls. okLine l"
  shows "segmentLines ls = [trim (joinNl ls)]"
proof -
  have "foldl scanLine ([], joinNl []) ls = ([], joinNl ([] @ ls))"
    using scan_okLines [of ls "[]" "[]"] assms(2) by simp
  then have st: "foldl scanLine ([], []) ls = ([], joinNl ls)" by simp
  have "nonBlank (joinNl ls)"
    using nonBlank_joinNl [OF assms(1)] assms(2) by (simp add: okLine_def)
  then have "trim (joinNl ls) \<noteq> []" by (simp add: trim_eq_Nil)
  then show ?thesis by (simp add: segmentLines_def st pushBuffer_def)
qed

lemma isHeading_append: "isHeading xs \<Longrightarrow> isHeading (xs @ ys)"
proof -
  assume h: "isHeading xs"
  let ?P = "\<lambda>c. c = CHR ''#''"
  from h obtain c r where d: "dropWhile ?P xs = c # r" and w: "isWhiteSpace c"
    by (auto simp: isHeading_def split: list.splits)
  from d have "c \<in> set xs" by (metis list.set_intros(1) set_dropWhileD)
  moreover have nc: "\<not> ?P c" using w by auto
  ultimately have "dropWhile ?P (xs @ ys) = dropWhile ?P xs @ ys"
    and "takeWhile ?P (xs @ ys) = takeWhile ?P xs"
    by (simp_all add: dropWhile_append1 takeWhile_append1)
  with h d w show ?thesis by (simp add: isHeading_def)
qed

lemma trimEnd_prefix: "\<exists>ys. l = trimEnd l @ ys"
proof -
  have "rev l = takeWhile isWhiteSpace (rev l) @ dropWhile isWhiteSpace (rev l)" by simp
  then have "l = rev (dropWhile isWhiteSpace (rev l)) @ rev (takeWhile isWhiteSpace (rev l))"
    by (metis rev_append rev_rev_ident)
  then show ?thesis unfolding trimEnd_def by blast
qed

lemma isHeading_trimEnd: "isHeading (trimEnd l) \<Longrightarrow> isHeading l"
  using trimEnd_prefix [of l] isHeading_append by metis

lemma nonBlank_trimEnd: "nonBlank (trimEnd s) \<longleftrightarrow> nonBlank s"
  using trimEnd_Nil_iff [of s] trimEnd_Nil_iff [of "trimEnd s"] by (simp add: trimEnd_idem)

lemma okLine_trimEnd: "okLine l \<Longrightarrow> okLine (trimEnd l)"
  using set_trimEnd [of l] isHeading_trimEnd [of l]
  by (auto simp: okLine_def nonBlank_trimEnd)

lemma trimStart_joinNl:
  "nonBlank l \<Longrightarrow> trimStart (joinNl (l # ls)) = joinNl (trimStart l # ls)"
  by (cases ls) (auto simp: trimStart_def nonBlank_def dropWhile_append1)

lemma trimEnd_append: "nonBlank l \<Longrightarrow> trimEnd (a @ l) = a @ trimEnd l"
  by (auto simp: trimEnd_def nonBlank_def dropWhile_append1)

lemma trimEnd_joinNl:
  "nonBlank l \<Longrightarrow> trimEnd (joinNl (ks @ [l])) = joinNl (ks @ [trimEnd l])"
  using trimEnd_append [of l "joinNl ks @ [LF]"] by (simp add: joinNl_snoc)

lemma okLine_trimStart: "goodLine l \<Longrightarrow> okLine (trimStart l)"
  using set_trimStart [of l] by (auto simp: goodLine_def okLine_def nonBlank_trimStart)

lemma trim_buffer_lines:
  assumes "ls \<noteq> []" and "\<forall>l \<in> set ls. goodLine l"
  shows "\<exists>ms. ms \<noteq> [] \<and> (\<forall>l \<in> set ms. okLine l) \<and> trim (joinNl ls) = joinNl ms"
proof -
  from assms(1) obtain l1 rest where ls: "ls = l1 # rest" by (cases ls) auto
  let ?ns = "trimStart l1 # rest"
  have ok: "\<forall>l \<in> set ?ns. okLine l"
    using assms(2) ls okLine_trimStart by (auto simp: goodLine_def)
  have "nonBlank l1" using assms(2) ls by (simp add: goodLine_def okLine_def)
  then have ts: "trimStart (joinNl ls) = joinNl ?ns" using ls by (simp add: trimStart_joinNl)
  obtain ks l where ns: "?ns = ks @ [l]" by (metis list.distinct(1) rev_exhaust)
  have okl: "okLine l" and okks: "\<forall>x \<in> set ks. okLine x"
    using ok unfolding ns by auto
  have "trimEnd (joinNl ?ns) = joinNl (ks @ [trimEnd l])"
    unfolding ns using trimEnd_joinNl okl by (simp add: okLine_def)
  then have "trim (joinNl ls) = joinNl (ks @ [trimEnd l])" by (simp add: trim_def ts)
  moreover have "\<forall>x \<in> set (ks @ [trimEnd l]). okLine x"
    using okks okLine_trimEnd [OF okl] by auto
  ultimately show ?thesis by blast
qed

lemma buffer_stable:
  assumes "ls \<noteq> []" and "\<forall>l \<in> set ls. goodLine l"
  shows "stable (trim (joinNl ls))"
proof -
  from trim_buffer_lines [OF assms] obtain ms where ne: "ms \<noteq> []"
    and ok: "\<forall>l \<in> set ms. okLine l" and t: "trim (joinNl ls) = joinNl ms" by blast
  have "splitNl (joinNl ms) = ms"
    using splitNl_joinNl [OF ne] ok by (simp add: okLine_def)
  then have "segmentLines (splitNl (joinNl ms)) = [trim (joinNl ms)]"
    using segmentLines_okLines [OF ne ok] by simp
  also have "trim (joinNl ms) = joinNl ms" using trim_idem [of "joinNl ls"] t by simp
  finally have seg: "segmentLines (splitNl (joinNl ms)) = [joinNl ms]" .
  have "nonBlank (joinNl ms)" using nonBlank_joinNl [OF ne] ok by (simp add: okLine_def)
  then have "joinNl ms \<noteq> []" by (rule nonBlank_nonempty)
  moreover have "CR \<notin> set (joinNl ls)"
    using set_joinNl [of ls] assms(2) by (auto simp: goodLine_def)
  then have "CR \<notin> set (trim (joinNl ls))"
    using set_trimStart [of "joinNl ls"] set_trimEnd [of "trimStart (joinNl ls)"]
    by (auto simp: trim_def)
  ultimately show ?thesis using seg t by (simp add: stable_def)
qed

lemma segmentLines_single:
  assumes "nonBlank x"
  shows "segmentLines [x] = [trim x]"
proof -
  have ne: "trim x \<noteq> []" using assms by (simp add: trim_eq_Nil)
  have e: "trim [] = []" by (simp add: trim_def trimStart_def trimEnd_def)
  show ?thesis
  proof (cases "isHeading x")
    case True
    then have "scanLine ([], []) x = ([trim x], [])"
      by (simp add: scanLine_def pushBuffer_def e)
    then show ?thesis using ne by (simp add: segmentLines_def pushBuffer_def e)
  next
    case False
    then have "scanLine ([], []) x = ([], x)"
      using ne by (simp add: scanLine_def)
    then show ?thesis using ne by (simp add: segmentLines_def pushBuffer_def)
  qed
qed

lemma heading_stable:
  assumes "isHeading h" and "LF \<notin> set h" and "CR \<notin> set h"
  shows "stable (trim h)"
proof -
  have ne: "trim h \<noteq> []" using assms(1) by (rule trim_heading_nonempty)
  have sub: "set (trim h) \<subseteq> set h"
    using set_trimStart [of h] set_trimEnd [of "trimStart h"] by (auto simp: trim_def)
  have "splitNl (trim h) = [trim h]" using sub assms(2) by (auto intro: splitNl_single)
  moreover have "nonBlank (trim h)" using ne trim_idem [of h] trim_eq_Nil [of "trim h"] by simp
  ultimately have "segmentLines (splitNl (trim h)) = [trim h]"
    using segmentLines_single [of "trim h"] by (simp add: trim_idem)
  then show ?thesis using ne sub assms(3) by (auto simp: stable_def)
qed

lemma trim_Nil [simp]: "trim [] = []"
  by (simp add: trim_def trimStart_def trimEnd_def)

lemma pushBuffer_stable:
  assumes "scanInv (bs, buf)"
  shows "\<forall>b \<in> set (pushBuffer bs buf). stable b"
proof -
  from assms obtain ks where bs: "\<forall>b \<in> set bs. stable b"
    and ks: "\<forall>l \<in> set ks. goodLine l" and buf: "buf = joinNl ks"
    by (auto simp: scanInv_def)
  show ?thesis
  proof (cases "ks = []")
    case True
    with buf bs show ?thesis by (simp add: pushBuffer_def)
  next
    case False
    from buffer_stable [OF False ks] bs buf show ?thesis by (simp add: pushBuffer_def)
  qed
qed

lemma scanLine_inv:
  assumes "scanInv st" and "plainLine l"
  shows "scanInv (scanLine st l)"
proof -
  obtain bs buf where st: "st = (bs, buf)" by (cases st)
  from assms(1) st obtain ks where bs: "\<forall>b \<in> set bs. stable b"
    and ks: "\<forall>l \<in> set ks. goodLine l" and buf: "buf = joinNl ks"
    by (auto simp: scanInv_def)
  have push: "\<forall>b \<in> set (pushBuffer bs buf). stable b"
    using pushBuffer_stable assms(1) st by simp
  have empty: "\<exists>ks. (\<forall>l \<in> set ks. goodLine l) \<and> [] = joinNl ks"
    by (rule exI [of _ "[]"]) simp
  show ?thesis
  proof (cases "isHeading l")
    case True
    have "stable (trim l)" using heading_stable [OF True] assms(2) by (simp add: plainLine_def)
    with push empty True show ?thesis by (simp add: scanInv_def scanLine_def st)
  next
    case nh: False
    show ?thesis
    proof (cases "trim l = []")
      case True
      show ?thesis
      proof (cases "trim buf = []")
        case True
        with \<open>trim l = []\<close> nh assms(1) show ?thesis by (simp add: scanLine_def st)
      next
        case False
        then have "pushBuffer bs buf = bs @ [trim buf]" by (simp add: pushBuffer_def)
        with push have "\<forall>b \<in> set (bs @ [trim buf]). stable b" by simp
        with empty nh \<open>trim l = []\<close> False show ?thesis
          by (simp add: scanInv_def scanLine_def st)
      qed
    next
      case False
      then have nb: "nonBlank l" by (simp add: trim_eq_Nil)
      have good: "goodLine l"
        using nh nb assms(2) by (auto simp: goodLine_def okLine_def plainLine_def)
      have ne: "buf \<noteq> [] \<longleftrightarrow> ks \<noteq> []"
        using nonBlank_joinNl [of ks] ks nonBlank_nonempty buf
        by (auto simp: goodLine_def okLine_def)
      have "(if buf \<noteq> [] then buf @ [LF] else buf) @ l = joinNl (ks @ [l])"
        using ne buf by (simp add: joinNl_snoc)
      moreover have "\<forall>x \<in> set (ks @ [l]). goodLine x" using ks good by simp
      ultimately have "\<exists>ks'. (\<forall>x \<in> set ks'. goodLine x) \<and>
          (if buf \<noteq> [] then buf @ [LF] else buf) @ l = joinNl ks'" by blast
      with bs nh False show ?thesis by (simp add: scanInv_def scanLine_def st)
    qed
  qed
qed

lemma foldl_scanLine_inv:
  "scanInv st \<Longrightarrow> \<forall>l \<in> set ls. plainLine l \<Longrightarrow> scanInv (foldl scanLine st ls)"
  by (induction ls arbitrary: st) (simp_all add: scanLine_inv)

lemma segmentLines_stable:
  assumes "\<forall>l \<in> set ls. plainLine l"
  shows "\<forall>b \<in> set (segmentLines ls). stable b"
proof -
  have "scanInv ([], [])" unfolding scanInv_def by (simp add: exI [of _ "[]"])
  from foldl_scanLine_inv [OF this assms]
  have "scanInv (fst (foldl scanLine ([], []) ls), snd (foldl scanLine ([], []) ls))" by simp
  from pushBuffer_stable [OF this] show ?thesis by (simp add: segmentLines_def Let_def)
qed

lemma scanLine_bufOk: "bufOk (snd st) \<Longrightarrow> bufOk (snd (scanLine st l))"
  by (auto simp: bufOk_def scanLine_def Let_def trim_eq_Nil nonBlank_def)

lemma foldl_scanLine_bufOk: "bufOk (snd st) \<Longrightarrow> bufOk (snd (foldl scanLine st ls))"
  by (induction ls arbitrary: st) (simp_all add: scanLine_bufOk)

lemma segmentLines_blank: "segmentLines (xs @ [] # ys) = segmentLines xs @ segmentLines ys"
proof -
  obtain bs buf where x: "foldl scanLine ([], []) xs = (bs, buf)"
    by (cases "foldl scanLine ([], []) xs")
  obtain cs cuf where y: "foldl scanLine ([], []) ys = (cs, cuf)"
    by (cases "foldl scanLine ([], []) ys")
  have "bufOk (snd (foldl scanLine ([], []) xs))"
    by (rule foldl_scanLine_bufOk) (simp add: bufOk_def)
  then have ok: "buf = [] \<or> trim buf \<noteq> []" using x by (simp add: bufOk_def trim_eq_Nil)
  have nh: "\<not> isHeading []" by (simp add: isHeading_def)
  have "scanLine (bs, buf) [] = (pushBuffer bs buf, [])"
    using ok nh by (auto simp: scanLine_def pushBuffer_def)
  then have "foldl scanLine ([], []) (xs @ [] # ys) = foldl scanLine (pushBuffer bs buf, []) ys"
    using x by simp
  also have "\<dots> = (pushBuffer bs buf @ cs, cuf)"
    using foldl_scanLine_from [of "pushBuffer bs buf" "[]" ys] y by simp
  finally have "segmentLines (xs @ [] # ys)
      = filter (\<lambda>b. b \<noteq> []) (pushBuffer (pushBuffer bs buf @ cs) cuf)"
    by (simp add: segmentLines_def)
  then show ?thesis using x y by (simp add: segmentLines_def pushBuffer_prefix)
qed

lemma resegment_stable:
  "\<forall>b \<in> set bs. stable b \<Longrightarrow> splitIntoBlocks (joinBlocks bs) = bs"
proof (induction bs rule: joinBlocks.induct)
  case 1
  show ?case
    by (simp add: splitIntoBlocks_def segmentLines_def scanLine_def pushBuffer_def isHeading_def)
next
  case (2 b)
  then show ?case by (simp add: splitIntoBlocks_def stable_def normalizeNewlines_id)
next
  case (3 b b' bs)
  have nocr: "\<forall>x \<in> set (b # b' # bs). CR \<notin> set x" using "3.prems" by (simp add: stable_def)
  have cr: "\<And>cs. \<forall>x \<in> set cs. CR \<notin> set x \<Longrightarrow> CR \<notin> set (joinBlocks cs)"
  proof -
    fix cs show "\<forall>x \<in> set cs. CR \<notin> set x \<Longrightarrow> CR \<notin> set (joinBlocks cs)"
      by (induction cs rule: joinBlocks.induct) auto
  qed
  have rest: "splitIntoBlocks (joinBlocks (b' # bs)) = b' # bs" using 3 by simp
  have "CR \<notin> set (joinBlocks (b' # bs))" using cr [of "b' # bs"] nocr by simp
  then have r: "segmentLines (splitNl (joinBlocks (b' # bs))) = b' # bs"
    using rest by (simp add: splitIntoBlocks_def normalizeNewlines_id)
  have "CR \<notin> set (joinBlocks (b # b' # bs))" using cr [OF nocr] .
  then have "splitIntoBlocks (joinBlocks (b # b' # bs))
      = segmentLines (splitNl (b @ LF # LF # joinBlocks (b' # bs)))"
    by (simp add: splitIntoBlocks_def normalizeNewlines_id)
  also have "splitNl (b @ LF # LF # joinBlocks (b' # bs))
      = splitNl b @ [] # splitNl (joinBlocks (b' # bs))"
    by (simp add: splitNl_append_LF)
  also have "segmentLines \<dots> = segmentLines (splitNl b) @ segmentLines (splitNl (joinBlocks (b' # bs)))"
    by (rule segmentLines_blank)
  finally show ?case using r "3.prems" by (simp add: stable_def)
qed

text \<open>
  C6 (segmentation idempotence). The buffer is trimmed when it is emitted, so a first line
  that is a heading marker behind leading white space becomes a heading line of the emitted
  block: the block then holds a heading together with other lines, which the comment in
  \<^verbatim>\<open>splitIntoBlocks\<close> (\<^verbatim>\<open>This ensures headings are always isolated\<close>) rules out, and segmenting
  the block again splits it. For the two lines \<open>    # h\<close> and \<open>    p\<close> (an indented code block
  whose first line starts with \<open>#\<close>) the segmenter gives one block, and segmenting the join
  of that block gives two.
\<close>

theorem segment_not_idempotent_indented_heading:
  "splitIntoBlocks (''    # h'' @ [LF] @ ''    p'') = [''# h'' @ [LF] @ ''    p''] \<and>
   splitIntoBlocks (joinBlocks (splitIntoBlocks (''    # h'' @ [LF] @ ''    p'')))
     = [''# h'', ''p''] \<and>
   splitIntoBlocks (joinBlocks (splitIntoBlocks (''    # h'' @ [LF] @ ''    p'')))
     \<noteq> splitIntoBlocks (''    # h'' @ [LF] @ ''    p'')"
  by code_simp

text \<open>
  Where no line of the normalised text turns into a heading line by losing its leading
  white space, the defect cannot show: segmenting the join of the blocks gives the same
  blocks again.
\<close>

lemma segment_idempotent_unindented:
  assumes "\<forall>l \<in> set (splitNl (normalizeNewlines T)). isHeading (trimStart l) \<longrightarrow> isHeading l"
  shows "splitIntoBlocks (joinBlocks (splitIntoBlocks T)) = splitIntoBlocks T"
proof -
  have "\<forall>l \<in> set (splitNl (normalizeNewlines T)). plainLine l"
  proof
    fix l assume l: "l \<in> set (splitNl (normalizeNewlines T))"
    from splitNl_lines [OF l] normalizeNewlines_no_CR [of T] assms l
    show "plainLine l" by (auto simp: plainLine_def)
  qed
  then have "\<forall>b \<in> set (splitIntoBlocks T). stable b"
    unfolding splitIntoBlocks_def by (rule segmentLines_stable)
  then show ?thesis by (rule resegment_stable)
qed

lemma segment_idempotent_unindented_example:
  "splitIntoBlocks (joinBlocks (splitIntoBlocks (''foo'' @ [LF] @ ''# Title'' @ [LF] @ ''bar'')))
     = splitIntoBlocks (''foo'' @ [LF] @ ''# Title'' @ [LF] @ ''bar'')"
proof -
  have "\<forall>l \<in> set (splitNl (normalizeNewlines (''foo'' @ [LF] @ ''# Title'' @ [LF] @ ''bar''))).
          isHeading (trimStart l) \<longrightarrow> isHeading l"
    by (simp add: LF_def CR_def isHeading_def trimStart_def isWhiteSpace_def)
  then show ?thesis by (rule segment_idempotent_unindented)
qed

section \<open>The branches of the key handler\<close>

lemma taken_listEnter [simp]: "taken (listEnter e bid s) = ListEnter"
  by (simp add: listEnter_def split: option.splits)

lemma taken_handleBlockSplit [simp]: "taken (handleBlockSplit gen bid md pos s) = BlockSplit"
  by (simp add: handleBlockSplit_def Let_def)

lemma taken_literalNewline [simp]: "taken (literalNewline s) = LiteralNewline"
  by (simp add: literalNewline_def split: list.splits)

lemma taken_mergeIntoPrevious [simp]: "taken (mergeIntoPrevious l b bid s) = b"
  by (simp add: mergeIntoPrevious_def Let_def)

lemma taken_deleteEmptyBlock [simp]: "taken (deleteEmptyBlock bid s) = EmptyDelete"
  by (simp add: deleteEmptyBlock_def Let_def split: option.splits prod.splits)

text \<open>
  C10. No key event reaches the second Backspace branch of the chain: its guard is the
  guard of the earlier branch, so whenever it holds the earlier branch is taken. For
  Backspace with the caret at the start of a block, the result is the one the first branch
  computes, with its choice between the list join and the plain join.
\<close>

theorem second_merge_branch_dead:
  "taken (handleKeyDown gen e s) \<noteq> SecondMerge \<and>
   handleKeyDown gen (e\<lparr>key := ''Backspace'', caretAtStart := True, blockId := Some bid\<rparr>) s
     = (if bid = [] then \<lparr>taken = NoBlock, after = s, caret = None\<rparr>
        else mergeIntoPrevious True BackwardMerge bid s)"
  by (auto simp: handleKeyDown_def split: option.splits)

section \<open>Arrays and list patterns\<close>

lemma arrayIndexOf_nonneg: "x \<in> set xs \<Longrightarrow> 0 \<le> arrayIndexOf xs x"
  by (induction xs) (auto simp: Let_def)

lemma arrayIndexOf_absent: "x \<notin> set xs \<Longrightarrow> arrayIndexOf xs x = - 1"
  by (induction xs) (auto simp: Let_def)

lemma arrayIndexOf_first:
  "x \<notin> set pre \<Longrightarrow> arrayIndexOf (pre @ x # post) x = int (length pre)"
  by (induction pre) (auto simp: Let_def)

lemma spliceOne_at:
  "spliceOne (int (length pre)) items (pre @ x # post) = pre @ items @ post"
  by (simp add: spliceOne_def sliceIndex_def)

lemma taskMarker_bullet: "taskMarker box s \<noteq> None \<Longrightarrow> bulletMarker s \<noteq> None"
  by (auto simp: taskMarker_def bulletMarker_def split: list.splits if_splits)

lemma listMarker_box: "listMarker box s \<noteq> None \<longleftrightarrow> listMarker box' s \<noteq> None"
  using taskMarker_bullet [of box s] taskMarker_bullet [of box' s]
  by (auto simp: listMarker_def split: option.splits)

lemma markerAhead_box: "markerAhead box = markerAhead box'"
  using listMarker_box by (auto simp: markerAhead_def fun_eq_iff)

lemma isListText_isListBlock: "isListText t = isListBlock t"
  using markerAhead_box [of anyBox checkBox] by (simp add: isListText_def isListBlock_def)

lemma bulletMarker_append: "bulletMarker zs \<noteq> None \<Longrightarrow> bulletMarker (zs @ ys) = bulletMarker zs"
  by (auto simp: bulletMarker_def split: list.splits if_splits)

lemma taskMarker_append: "taskMarker box zs \<noteq> None \<Longrightarrow> taskMarker box (zs @ ys) = taskMarker box zs"
  by (auto simp: taskMarker_def split: list.splits if_splits)

lemma isDigit_dot [simp]: "\<not> isDigit CHR ''.''"
  by (simp add: isDigit_def)

lemma numberMarker_append:
  assumes "numberMarker zs \<noteq> None"
  shows "numberMarker (zs @ ys) \<noteq> None"
proof -
  let ?n = "length (takeWhile isDigit zs)"
  from assms have n: "0 < ?n" and t: "take 2 (drop ?n zs) = ''. ''"
    by (auto simp: numberMarker_def Let_def split: if_splits)
  from t obtain r where r: "drop ?n zs = CHR ''.'' # CHR '' '' # r"
    by (cases "drop ?n zs"; cases "tl (drop ?n zs)") auto
  have "CHR ''.'' \<in> set (drop ?n zs)" unfolding r by simp
  then have "CHR ''.'' \<in> set zs" by (rule in_set_dropD)
  then have tw: "takeWhile isDigit (zs @ ys) = takeWhile isDigit zs"
    by (rule takeWhile_append1) simp
  have "?n \<le> length zs" by (rule length_takeWhile_le)
  then have "drop ?n (zs @ ys) = drop ?n zs @ ys" by simp
  then have "take 2 (drop ?n (zs @ ys)) = ''. ''" unfolding r by simp
  with tw n show ?thesis by (simp add: numberMarker_def Let_def)
qed

lemma listMarker_append: "listMarker box zs \<noteq> None \<Longrightarrow> listMarker box (zs @ ys) \<noteq> None"
  using bulletMarker_append [of zs ys] taskMarker_append [of box zs ys] numberMarker_append [of zs ys]
  by (auto simp: listMarker_def split: option.splits)

lemma listMarker_Nil [simp]: "listMarker box [] = None"
  by (simp add: listMarker_def bulletMarker_def numberMarker_def taskMarker_def)

lemma markerAhead_append: "markerAhead box xs \<Longrightarrow> markerAhead box (xs @ ys)"
proof -
  assume m: "markerAhead box xs"
  have "dropWhile isWhiteSpace xs \<noteq> []"
    using m listMarker_Nil [of box] unfolding markerAhead_def by metis
  then obtain x where "x \<in> set xs" and "\<not> isWhiteSpace x"
    by (auto simp: dropWhile_eq_Nil_conv)
  then have "dropWhile isWhiteSpace (xs @ ys) = dropWhile isWhiteSpace xs @ ys"
    by (rule dropWhile_append1)
  with m show ?thesis by (simp add: markerAhead_def listMarker_append)
qed

lemma afterTerminator_append:
  "afterTerminator (markerAhead box) xs \<Longrightarrow> afterTerminator (markerAhead box) (xs @ ys)"
  by (induction xs) (auto simp: markerAhead_append)

lemma isListBlock_append: "isListBlock xs \<Longrightarrow> isListBlock (xs @ ys)"
  by (auto simp: isListBlock_def testMultiline_def markerAhead_append afterTerminator_append)

lemma isListBlock_take: "isListBlock (take k T) \<Longrightarrow> isListBlock T"
  using isListBlock_append [of "take k T" "drop k T"] by simp

lemma isListBlock_foo: "\<not> isListBlock ''foo''"
  by code_simp

lemma isListBlock_x: "isListBlock ''- x''" "isListBlock ''1. y''"
  by code_simp+

lemma docInv_singleBlock: "docInv (singleBlock t)"
  by (simp add: docInv_def singleBlock_def)

lemma docInv_twoBlocks: "docInv (twoBlocks t u)"
  by (auto simp: docInv_def twoBlocks_def)

section \<open>Backward merge\<close>

lemma mergeIntoPrevious_at:
  assumes "allLines s = pre @ A # B # post" and "B \<notin> set pre" and "B \<noteq> A"
  shows "mergeIntoPrevious l b B s =
     \<lparr>taken = b,
      after = \<lparr>doc = ((doc s)(A \<mapsto>
                  (if l \<and> isListBlock (textOr (doc s) A) \<and> isListBlock (textOr (doc s) B)
                   then textOr (doc s) A @ [LF] @ textOr (doc s) B
                   else textOr (doc s) A @ textOr (doc s) B)))(B := None),
               allLines = pre @ A # post,
               editingBlockIds = [A]\<rparr>,
      caret = Some (CaretOffset A (length (textOr (doc s) A)))\<rparr>"
proof -
  have idx: "arrayIndexOf (pre @ A # B # post) B = 1 + int (length pre)"
    using arrayIndexOf_first [of B "pre @ [A]" post] assms(2,3) by simp
  have sp: "spliceOne (1 + int (length pre)) [] (pre @ A # B # post) = pre @ A # post"
    using spliceOne_at [of "pre @ [A]" "[]" B post] by simp
  have n: "nat (1 + int (length pre)) - 1 = length pre" by simp
  show ?thesis
    unfolding mergeIntoPrevious_def Let_def assms(1) idx sp n
    by (simp add: isListText_isListBlock)
qed

text \<open>
  C2. Let block \<open>B\<close> follow block \<open>A\<close> in \<^verbatim>\<open>allLines\<close> (ids are not empty strings and none
  occurs twice). Backspace with the caret at the start of \<open>B\<close> takes the backward merge:
  \<open>A\<close>'s text becomes \<open>A\<close>'s text followed directly by \<open>B\<close>'s, or by a newline and \<open>B\<close>'s when
  both texts are list blocks; \<open>B\<close> leaves \<^verbatim>\<open>doc\<close> and \<^verbatim>\<open>allLines\<close>; \<open>A\<close> is the only editing block;
  and the caret is requested in \<open>A\<close> at the length of \<open>A\<close>'s text before the merge.
\<close>

theorem backspace_merges_into_previous:
  assumes "distinct (allLines s)" and "allLines s = pre @ A # B # post"
    and "key e = ''Backspace''" and "caretAtStart e" and "blockId e = Some B" and "B \<noteq> []"
  shows "let r = handleKeyDown gen e s; a = textOr (doc s) A; b = textOr (doc s) B;
             merged = (if isListBlock a \<and> isListBlock b then a @ [LF] @ b else a @ b)
         in taken r = BackwardMerge \<and>
            doc (after r) = ((doc s)(A \<mapsto> merged))(B := None) \<and>
            doc (after r) A = Some merged \<and> doc (after r) B = None \<and>
            allLines (after r) = pre @ A # post \<and> B \<notin> set (allLines (after r)) \<and>
            editingBlockIds (after r) = [A] \<and>
            caret r = Some (CaretOffset A (length a))"
proof -
  have d: "B \<notin> set pre" "B \<noteq> A" "B \<notin> set post"
    using assms(1) unfolding assms(2) by auto
  have "handleKeyDown gen e s = mergeIntoPrevious True BackwardMerge B s"
    using assms(3-6) by (simp add: handleKeyDown_def)
  then show ?thesis
    using mergeIntoPrevious_at [OF assms(2) d(1) d(2), of True BackwardMerge] d
    by (simp add: Let_def)
qed

theorem backspace_merges_into_previous_witness:
  "doc (after (handleKeyDown gen0 (backspaceAtStart ''b'') state0)) ''a'' = Some ''foobar'' \<and>
   doc (after (handleKeyDown gen0 (backspaceAtStart ''b'') state0)) ''b'' = None \<and>
   allLines (after (handleKeyDown gen0 (backspaceAtStart ''b'') state0)) = [''a''] \<and>
   editingBlockIds (after (handleKeyDown gen0 (backspaceAtStart ''b'') state0)) = [''a''] \<and>
   caret (handleKeyDown gen0 (backspaceAtStart ''b'') state0) = Some (CaretOffset ''a'' 3) \<and>
   doc (after (handleKeyDown gen0 (backspaceAtStart ''b'') listState0)) ''a''
     = Some (''- x'' @ [LF] @ ''1. y'')"
proof -
  have 1: "distinct (allLines state0)" "allLines state0 = [] @ ''a'' # ''b'' # []"
    "key (backspaceAtStart ''b'') = ''Backspace''" "caretAtStart (backspaceAtStart ''b'')"
    "blockId (backspaceAtStart ''b'') = Some ''b''" "''b'' \<noteq> []"
    by (simp_all add: state0_def twoBlocks_def backspaceAtStart_def)
  have 2: "distinct (allLines listState0)" "allLines listState0 = [] @ ''a'' # ''b'' # []"
    by (simp_all add: listState0_def twoBlocks_def)
  have t: "textOr (doc state0) ''a'' = ''foo''" "textOr (doc state0) ''b'' = ''bar''"
    "textOr (doc listState0) ''a'' = ''- x''" "textOr (doc listState0) ''b'' = ''1. y''"
    by (simp_all add: state0_def listState0_def twoBlocks_def textOr_def)
  show ?thesis
    using backspace_merges_into_previous [OF 1, of gen0]
      backspace_merges_into_previous [OF 2 1(3-6), of gen0]
    by (simp add: Let_def t isListBlock_foo isListBlock_x)
qed

section \<open>Structural split\<close>

lemma allBlockIds_all:
  "take (length (beforeBlocks md pos)) (newIds gen bid md pos) @
   take (length (afterBlocks md pos)) (drop (length (beforeBlocks md pos)) (newIds gen bid md pos))
     = newIds gen bid md pos"
proof -
  have b: "beforeBlocks md pos \<noteq> []" by (simp add: beforeBlocks_def orEmpty_def)
  then have "length (newIds gen bid md pos)
      = length (beforeBlocks md pos) + length (afterBlocks md pos)"
    by (cases "beforeBlocks md pos") (simp_all add: newIds_def generatedIds_def)
  then show ?thesis by simp
qed

lemma length_newIds:
  "length (newIds gen bid md pos) = length (beforeBlocks md pos) + length (afterBlocks md pos)"
proof -
  have b: "beforeBlocks md pos \<noteq> []" by (simp add: beforeBlocks_def orEmpty_def)
  then show ?thesis
    by (cases "beforeBlocks md pos") (simp_all add: newIds_def generatedIds_def)
qed

lemma map_upds_nth:
  "distinct xs \<Longrightarrow> length xs = length ys \<Longrightarrow> i < length xs \<Longrightarrow>
     (m(xs [\<mapsto>] ys)) (xs ! i) = Some (ys ! i)"
proof (induction xs arbitrary: ys i m)
  case Nil
  then show ?case by simp
next
  case (Cons x xs)
  then obtain y ys' where ys: "ys = y # ys'" by (cases ys) auto
  have step: "m(x # xs [\<mapsto>] y # ys') = (m(x \<mapsto> y))(xs [\<mapsto>] ys')"
    by (rule map_upds_Cons)
  show ?case
  proof (cases i)
    case 0
    have "x \<notin> set xs" using Cons.prems(1) by simp
    then have "((m(x \<mapsto> y))(xs [\<mapsto>] ys')) x = (m(x \<mapsto> y)) x"
      by (rule map_upds_apply_nontin)
    then show ?thesis unfolding ys step 0 by simp
  next
    case (Suc j)
    have "((m(x \<mapsto> y))(xs [\<mapsto>] ys')) (xs ! j) = Some (ys' ! j)"
      using Cons.prems ys Suc by (intro Cons.IH) auto
    then show ?thesis unfolding ys step Suc by simp
  qed
qed

lemma map_upds_split:
  "length xs = length ys \<Longrightarrow> (m(xs [\<mapsto>] ys))(xs' [\<mapsto>] ys') = m(xs @ xs' [\<mapsto>] ys @ ys')"
proof (induction xs arbitrary: ys m)
  case Nil
  then show ?case by simp
next
  case (Cons x xs)
  then obtain y zs where ys: "ys = y # zs" and l: "length xs = length zs"
    by (cases ys) auto
  have "(m(x # xs [\<mapsto>] y # zs))(xs' [\<mapsto>] ys') = ((m(x \<mapsto> y))(xs [\<mapsto>] zs))(xs' [\<mapsto>] ys')"
    by (simp only: map_upds_Cons)
  also have "\<dots> = (m(x \<mapsto> y))(xs @ xs' [\<mapsto>] zs @ ys')"
    using l by (rule Cons.IH)
  also have "\<dots> = m((x # xs) @ xs' [\<mapsto>] (y # zs) @ ys')"
    by (simp only: map_upds_Cons append_Cons)
  finally show ?case unfolding ys .
qed

lemma docUpdate_all:
  "((doc s)(take (length (beforeBlocks md pos)) (newIds gen bid md pos) [\<mapsto>] beforeBlocks md pos))
      (take (length (afterBlocks md pos))
         (drop (length (beforeBlocks md pos)) (newIds gen bid md pos)) [\<mapsto>] afterBlocks md pos)
   = (doc s)(newIds gen bid md pos [\<mapsto>] beforeBlocks md pos @ afterBlocks md pos)"
proof -
  have "length (take (length (beforeBlocks md pos)) (newIds gen bid md pos))
      = length (beforeBlocks md pos)"
    by (simp add: length_newIds)
  from map_upds_split [OF this] show ?thesis by (simp add: allBlockIds_all)
qed

lemma handleBlockSplit_eq:
  assumes "bid \<noteq> []"
  shows "handleBlockSplit gen bid md pos s =
     \<lparr>taken = BlockSplit,
      after = \<lparr>doc = (doc s)(newIds gen bid md pos [\<mapsto>] beforeBlocks md pos @ afterBlocks md pos),
               allLines = spliceOne (arrayIndexOf (allLines s) bid) (newIds gen bid md pos) (allLines s),
               editingBlockIds = [newIds gen bid md pos ! length (beforeBlocks md pos)]\<rparr>,
      caret = Some (CaretStart (newIds gen bid md pos ! length (beforeBlocks md pos)))\<rparr>"
  using assms by (simp add: handleBlockSplit_def Let_def docUpdate_all allBlockIds_all)

lemma blocks_nonempty [simp]: "beforeBlocks md pos \<noteq> []" "afterBlocks md pos \<noteq> []"
  by (simp_all add: beforeBlocks_def afterBlocks_def orEmpty_def)

lemma docUpdate_values:
  assumes "distinct (newIds gen bid md pos)"
  shows "map ((doc s)(newIds gen bid md pos [\<mapsto>] beforeBlocks md pos @ afterBlocks md pos))
           (newIds gen bid md pos)
         = map Some (beforeBlocks md pos @ afterBlocks md pos)"
proof (rule nth_equalityI)
  show "length (map ((doc s)(newIds gen bid md pos [\<mapsto>] beforeBlocks md pos @ afterBlocks md pos))
           (newIds gen bid md pos))
         = length (map Some (beforeBlocks md pos @ afterBlocks md pos))"
    by (simp add: length_newIds)
next
  fix i
  assume "i < length (map ((doc s)(newIds gen bid md pos [\<mapsto>] beforeBlocks md pos @ afterBlocks md pos))
           (newIds gen bid md pos))"
  then have i: "i < length (newIds gen bid md pos)" by simp
  have l: "length (newIds gen bid md pos) = length (beforeBlocks md pos @ afterBlocks md pos)"
    by (simp add: length_newIds)
  from map_upds_nth [OF assms l i, of "doc s"] i l
  show "map ((doc s)(newIds gen bid md pos [\<mapsto>] beforeBlocks md pos @ afterBlocks md pos))
           (newIds gen bid md pos) ! i
         = map Some (beforeBlocks md pos @ afterBlocks md pos) ! i"
    by (simp del: map_append)
qed

text \<open>
  C8. Enter in a block that is not a list block, at any caret offset \<open>k\<close>: each half of the
  text is segmented, and a half that segments to no block is replaced by one empty block,
  so both halves contribute at least one block. The block's own id is the first of the ids
  that replace it in \<^verbatim>\<open>allLines\<close>, and it holds the first block of the first half; every block
  of both halves is stored under its id (the generated ids being new and distinct).
\<close>

theorem split_keeps_both_halves:
  assumes "key e = ''Enter''" and "\<not> shiftKey e" and "blockId e = Some bid" and "bid \<noteq> []"
    and "\<not> isListBlock (blockMarkdown e)"
    and "allLines s = pre @ bid # post" and "bid \<notin> set pre"
    and "distinct (newIds gen bid (blockMarkdown e) (caretPos e))"
  shows "let md = blockMarkdown e; k = caretPos e;
             bs = beforeBlocks md k; as = afterBlocks md k;
             ids = newIds gen bid md k;
             r = handleKeyDown gen e s
         in bs = (if splitIntoBlocks (take k md) = [] then [[]] else splitIntoBlocks (take k md)) \<and>
            as = (if splitIntoBlocks (drop k md) = [] then [[]] else splitIntoBlocks (drop k md)) \<and>
            bs \<noteq> [] \<and> as \<noteq> [] \<and>
            taken r = BlockSplit \<and>
            hd ids = bid \<and> length ids = length bs + length as \<and>
            allLines (after r) = pre @ ids @ post \<and>
            map (doc (after r)) ids = map Some (bs @ as) \<and>
            doc (after r) bid = Some (hd bs)"
proof -
  let ?md = "blockMarkdown e" and ?k = "caretPos e"
  let ?ids = "newIds gen bid ?md ?k"
  have r: "handleKeyDown gen e s = handleBlockSplit gen bid ?md ?k s"
    using assms(1-5) by (simp add: handleKeyDown_def)
  have al: "spliceOne (arrayIndexOf (allLines s) bid) ?ids (allLines s) = pre @ ?ids @ post"
    unfolding assms(6) arrayIndexOf_first [OF assms(7)] by (rule spliceOne_at)
  have vals: "map ((doc s)(?ids [\<mapsto>] beforeBlocks ?md ?k @ afterBlocks ?md ?k)) ?ids
      = map Some (beforeBlocks ?md ?k @ afterBlocks ?md ?k)"
    using assms(8) by (rule docUpdate_values)
  have "map ((doc s)(?ids [\<mapsto>] beforeBlocks ?md ?k @ afterBlocks ?md ?k)) ?ids ! 0
      = map Some (beforeBlocks ?md ?k @ afterBlocks ?md ?k) ! 0"
    using vals by simp
  then have first: "((doc s)(?ids [\<mapsto>] beforeBlocks ?md ?k @ afterBlocks ?md ?k)) bid
      = Some (hd (beforeBlocks ?md ?k))"
    by (cases "beforeBlocks ?md ?k") (simp_all add: newIds_def)
  show ?thesis
    unfolding Let_def r handleBlockSplit_eq [OF assms(4)]
    using al vals first
    by (simp add: length_newIds) (simp add: beforeBlocks_def afterBlocks_def orEmpty_def newIds_def)
qed

theorem split_keeps_both_halves_witness:
  "allLines (after (handleKeyDown gen0 (enterAt ''a'' ''foo'' 3) (singleBlock ''foo''))) = [''a'', ''n''] \<and>
   map (doc (after (handleKeyDown gen0 (enterAt ''a'' ''foo'' 3) (singleBlock ''foo'')))) [''a'', ''n'']
     = [Some ''foo'', Some []]"
proof -
  have 1: "key (enterAt ''a'' ''foo'' 3) = ''Enter''" "\<not> shiftKey (enterAt ''a'' ''foo'' 3)"
    "blockId (enterAt ''a'' ''foo'' 3) = Some ''a''" "''a'' \<noteq> []"
    by (simp_all add: enterAt_def)
  have 2: "\<not> isListBlock (blockMarkdown (enterAt ''a'' ''foo'' 3))" by code_simp
  have 3: "allLines (singleBlock ''foo'') = [] @ ''a'' # []" "''a'' \<notin> set []"
    by (simp_all add: singleBlock_def)
  have 4: "distinct (newIds gen0 ''a'' (blockMarkdown (enterAt ''a'' ''foo'' 3))
      (caretPos (enterAt ''a'' ''foo'' 3)))" by code_simp
  have 5: "blockMarkdown (enterAt ''a'' ''foo'' 3) = ''foo''" "caretPos (enterAt ''a'' ''foo'' 3) = 3"
    by (simp_all add: enterAt_def)
  have 6: "beforeBlocks ''foo'' 3 = [''foo'']" "afterBlocks ''foo'' 3 = [[]]"
    "newIds gen0 ''a'' ''foo'' 3 = [''a'', ''n'']"
    by code_simp+
  show ?thesis
    using split_keeps_both_halves [OF 1 2 3 4] unfolding 5 Let_def 6 by simp
qed

section \<open>The document invariant\<close>

lemma docInv_split:
  assumes "docInv s" and "bid \<in> set (allLines s)" and "bid \<noteq> []"
    and "distinct (generatedIds gen md pos)"
    and "set (generatedIds gen md pos) \<inter> set (allLines s) = {}"
  shows "docInv (after (handleBlockSplit gen bid md pos s))"
proof -
  from assms(2) obtain pre post where al: "allLines s = pre @ bid # post" and np: "bid \<notin> set pre"
    by (meson split_list_first)
  let ?ids = "newIds gen bid md pos"
  have sp: "spliceOne (arrayIndexOf (allLines s) bid) ?ids (allLines s) = pre @ ?ids @ post"
    unfolding al arrayIndexOf_first [OF np] by (rule spliceOne_at)
  have d: "distinct (pre @ bid # post)" and dm: "set (pre @ bid # post) = dom (doc s)"
    using assms(1) al by (simp_all add: docInv_def)
  have dis: "distinct (pre @ ?ids @ post)"
    using d assms(4,5) unfolding al newIds_def by auto
  have "dom ((doc s)(?ids [\<mapsto>] beforeBlocks md pos @ afterBlocks md pos)) = set ?ids \<union> dom (doc s)"
    by (simp add: dom_map_upds length_newIds)
  also have "\<dots> = set (pre @ ?ids @ post)"
    using dm by (auto simp: newIds_def)
  finally show ?thesis
    unfolding handleBlockSplit_eq [OF assms(3)] using sp dis by (simp add: docInv_def)
qed

lemma docInv_merge:
  assumes "docInv s"
  shows "docInv (after (mergeIntoPrevious l b bid s))"
proof (cases "0 < arrayIndexOf (allLines s) bid")
  case False
  with assms show ?thesis by (simp add: mergeIntoPrevious_def)
next
  case True
  then have "bid \<in> set (allLines s)" using arrayIndexOf_absent [of bid "allLines s"] by fastforce
  then obtain xs post where al: "allLines s = xs @ bid # post" and np: "bid \<notin> set xs"
    by (meson split_list_first)
  have "xs \<noteq> []" using True unfolding al arrayIndexOf_first [OF np] by simp
  then obtain pre A where xs: "xs = pre @ [A]" by (meson rev_exhaust)
  have al': "allLines s = pre @ A # bid # post" using al xs by simp
  have d: "distinct (pre @ A # bid # post)" and dm: "set (pre @ A # bid # post) = dom (doc s)"
    using assms al' by (simp_all add: docInv_def)
  have ne: "bid \<notin> set pre" "bid \<noteq> A" using d by auto
  show ?thesis
    unfolding mergeIntoPrevious_at [OF al' ne] using d dm by (auto simp: docInv_def)
qed

lemma doc_deleteEmptyBlock:
  "doc (after (deleteEmptyBlock bid s)) = (doc s)(bid := None)"
  by (simp add: deleteEmptyBlock_def Let_def split: option.splits prod.splits)

lemma allLines_deleteEmptyBlock:
  "allLines (after (deleteEmptyBlock bid s))
     = spliceOne (arrayIndexOf (allLines s) bid) [] (allLines s)"
  by (simp add: deleteEmptyBlock_def Let_def split: option.splits prod.splits)

lemma docInv_delete:
  assumes "docInv s" and "bid \<in> set (allLines s)"
  shows "docInv (after (deleteEmptyBlock bid s))"
proof -
  from assms(2) obtain pre post where al: "allLines s = pre @ bid # post" and np: "bid \<notin> set pre"
    by (meson split_list_first)
  have sp: "spliceOne (arrayIndexOf (pre @ bid # post) bid) [] (pre @ bid # post) = pre @ post"
    unfolding arrayIndexOf_first [OF np] using spliceOne_at [of pre "[]" bid post] by simp
  have d: "distinct (pre @ bid # post)" and dm: "set (pre @ bid # post) = dom (doc s)"
    using assms(1) al by (simp_all add: docInv_def)
  show ?thesis
    unfolding docInv_def doc_deleteEmptyBlock allLines_deleteEmptyBlock al sp
    using d dm by auto
qed

text \<open>
  C7. A structural split, a backward merge or an empty-block deletion on a block of a
  document that satisfies the invariant (with the ids generated for a split distinct and
  not yet in the document) leaves a document that satisfies the invariant: \<^verbatim>\<open>allLines\<close> has
  no id twice and its ids are exactly the keys of \<^verbatim>\<open>doc\<close>.
\<close>

theorem structural_operations_keep_invariant:
  assumes "docInv s" and "blockId e = Some bid" and "bid \<in> set (allLines s)"
    and "distinct (generatedIds gen (blockMarkdown e) (caretPos e))"
    and "set (generatedIds gen (blockMarkdown e) (caretPos e)) \<inter> set (allLines s) = {}"
    and "taken (handleKeyDown gen e s) \<in> {BlockSplit, BackwardMerge, EmptyDelete}"
  shows "docInv (after (handleKeyDown gen e s))"
proof (cases "bid = []")
  case True
  with assms(1,2) show ?thesis by (simp add: handleKeyDown_def)
next
  case False
  show ?thesis
    using assms(6) False assms(2)
      docInv_split [OF assms(1,3) False assms(4,5)]
      docInv_merge [OF assms(1), of True BackwardMerge bid]
      docInv_delete [OF assms(1,3)]
    by (auto simp: handleKeyDown_def split: if_splits)
qed

theorem structural_operations_keep_invariant_witness:
  "docInv (after (handleKeyDown gen0 (enterAt ''a'' ''foo bar'' 3) (singleBlock ''foo bar''))) \<and>
   docInv (after (handleKeyDown gen0 (backspaceAtStart ''b'') (twoBlocks ''foo'' ''bar''))) \<and>
   docInv (after (handleKeyDown gen0 (deleteIn ''b'') (twoBlocks ''foo'' [])))"
proof -
  have a: "blockId (enterAt ''a'' ''foo bar'' 3) = Some ''a''"
    "''a'' \<in> set (allLines (singleBlock ''foo bar''))"
    by (simp_all add: enterAt_def singleBlock_def)
  have a': "distinct (generatedIds gen0 (blockMarkdown (enterAt ''a'' ''foo bar'' 3))
        (caretPos (enterAt ''a'' ''foo bar'' 3)))"
    "set (generatedIds gen0 (blockMarkdown (enterAt ''a'' ''foo bar'' 3))
        (caretPos (enterAt ''a'' ''foo bar'' 3))) \<inter> set (allLines (singleBlock ''foo bar'')) = {}"
    "taken (handleKeyDown gen0 (enterAt ''a'' ''foo bar'' 3) (singleBlock ''foo bar''))
       \<in> {BlockSplit, BackwardMerge, EmptyDelete}"
    by code_simp+
  have b: "blockId (backspaceAtStart ''b'') = Some ''b''"
    "''b'' \<in> set (allLines (twoBlocks ''foo'' ''bar''))"
    "blockId (deleteIn ''b'') = Some ''b''"
    "''b'' \<in> set (allLines (twoBlocks ''foo'' []))"
    by (simp_all add: backspaceAtStart_def deleteIn_def twoBlocks_def)
  have b': "distinct (generatedIds gen0 (blockMarkdown (backspaceAtStart ''b''))
        (caretPos (backspaceAtStart ''b'')))"
    "set (generatedIds gen0 (blockMarkdown (backspaceAtStart ''b''))
        (caretPos (backspaceAtStart ''b''))) \<inter> set (allLines (twoBlocks ''foo'' ''bar'')) = {}"
    "taken (handleKeyDown gen0 (backspaceAtStart ''b'') (twoBlocks ''foo'' ''bar''))
       \<in> {BlockSplit, BackwardMerge, EmptyDelete}"
    by code_simp+
  have c': "distinct (generatedIds gen0 (blockMarkdown (deleteIn ''b''))
        (caretPos (deleteIn ''b'')))"
    "set (generatedIds gen0 (blockMarkdown (deleteIn ''b''))
        (caretPos (deleteIn ''b''))) \<inter> set (allLines (twoBlocks ''foo'' [])) = {}"
    "taken (handleKeyDown gen0 (deleteIn ''b'') (twoBlocks ''foo'' []))
       \<in> {BlockSplit, BackwardMerge, EmptyDelete}"
    by code_simp+
  show ?thesis
    using structural_operations_keep_invariant [OF docInv_singleBlock a a']
      structural_operations_keep_invariant [OF docInv_twoBlocks b(1,2) b']
      structural_operations_keep_invariant [OF docInv_twoBlocks b(3,4) c']
    by simp
qed

section \<open>Split followed by merge\<close>

text \<open>
  C1 (split then merge restores the text), as stated, fails: both halves of a split are
  segmented, which trims them, so white space next to the caret is lost. The block
  \<open>foo bar\<close> split at offset 3 gives the blocks \<open>foo\<close> and \<open>bar\<close>, and Backspace at the start of
  the second one gives \<open>foobar\<close>.
\<close>

theorem split_merge_counterexample:
  "\<not> isListBlock ''foo bar'' \<and>
   doc (after (handleKeyDown gen0 (backspaceAtStart ''n'')
          (after (handleKeyDown gen0 (enterAt ''a'' ''foo bar'' 3) (singleBlock ''foo bar'')))))
     ''a'' = Some ''foobar'' \<and>
   doc (after (handleKeyDown gen0 (backspaceAtStart ''n'')
          (after (handleKeyDown gen0 (enterAt ''a'' ''foo bar'' 3) (singleBlock ''foo bar'')))))
     ''a'' \<noteq> Some ''foo bar''"
  by code_simp

text \<open>
  C1, amended. Let \<open>T\<close> be the text of a block, both as \<^verbatim>\<open>doc\<close> stores it and as the handler
  reads it through \<^verbatim>\<open>htmlToMarkdown\<close>. When \<open>T\<close> is not a list block and each half of it at
  offset \<open>k\<close> is either empty or a single block that segmentation returns unchanged, Enter at
  \<open>k\<close> splits the block in two, the second with a new id and the focus, and Backspace at the
  start of that second block gives back \<open>T\<close> under the original id: \<^verbatim>\<open>doc\<close> and \<^verbatim>\<open>allLines\<close> are
  as they were before the split.
\<close>

theorem split_then_merge_restores:
  assumes "docInv s" and "allLines s = pre @ bid # post" and "bid \<noteq> []"
    and "gen 0 \<notin> set (allLines s)" and "gen 0 \<noteq> []"
    and "\<not> isListBlock T"
    and "take k T = [] \<or> splitIntoBlocks (take k T) = [take k T]"
    and "drop k T = [] \<or> splitIntoBlocks (drop k T) = [drop k T]"
    and "key e1 = ''Enter''" and "\<not> shiftKey e1" and "blockId e1 = Some bid"
    and "blockMarkdown e1 = T" and "caretPos e1 = k"
    and "key e2 = ''Backspace''" and "caretAtStart e2" and "blockId e2 = Some (gen 0)"
    and "doc s bid = Some T"
  shows "let r1 = handleKeyDown gen e1 s; r2 = handleKeyDown gen' e2 (after r1)
         in allLines (after r1) = pre @ bid # gen 0 # post \<and>
            editingBlockIds (after r1) = [gen 0] \<and> caret r1 = Some (CaretStart (gen 0)) \<and>
            doc (after r2) bid = Some T \<and> doc (after r2) = doc s \<and>
            allLines (after r2) = allLines s \<and> editingBlockIds (after r2) = [bid]"
proof -
  note al = assms(2)
  have np: "bid \<notin> set pre" using assms(1) al by (simp add: docInv_def)
  have bs: "beforeBlocks T k = [take k T]"
    using assms(7) by (auto simp: beforeBlocks_def orEmpty_def splitIntoBlocks_def segmentLines_def
        scanLine_def pushBuffer_def isHeading_def)
  have ab: "afterBlocks T k = [drop k T]"
    using assms(8) by (auto simp: afterBlocks_def orEmpty_def splitIntoBlocks_def segmentLines_def
        scanLine_def pushBuffer_def isHeading_def)
  have ids: "newIds gen bid T k = [bid, gen 0]"
    by (simp add: newIds_def generatedIds_def bs ab)
  have r1: "handleKeyDown gen e1 s = handleBlockSplit gen bid T k s"
    using assms(3,6,9-13) by (simp add: handleKeyDown_def)
  have sp: "spliceOne (arrayIndexOf (allLines s) bid) [bid, gen 0] (allLines s)
      = pre @ bid # gen 0 # post"
    unfolding al arrayIndexOf_first [OF np] using spliceOne_at [of pre "[bid, gen 0]" bid post]
    by simp
  define s1 where "s1 = after (handleBlockSplit gen bid T k s)"
  have s1: "s1 = \<lparr>doc = (doc s)(bid \<mapsto> take k T, gen 0 \<mapsto> drop k T),
                  allLines = pre @ bid # gen 0 # post, editingBlockIds = [gen 0]\<rparr>"
    unfolding s1_def handleBlockSplit_eq [OF assms(3)] ids bs ab sp by simp
  have c1: "caret (handleBlockSplit gen bid T k s) = Some (CaretStart (gen 0))"
    unfolding handleBlockSplit_eq [OF assms(3)] ids bs by simp
  have g: "gen 0 \<notin> set pre" "gen 0 \<noteq> bid" "gen 0 \<notin> dom (doc s)"
    using assms(1,2,4) al by (auto simp: docInv_def)
  have r2: "handleKeyDown gen' e2 s1 = mergeIntoPrevious True BackwardMerge (gen 0) s1"
    using assms(5,14-16) by (simp add: handleKeyDown_def)
  have al1: "allLines s1 = pre @ bid # gen 0 # post" by (simp add: s1)
  have tx: "textOr (doc s1) bid = take k T" "textOr (doc s1) (gen 0) = drop k T"
    using g(2) by (simp_all add: s1 textOr_def)
  have nl: "\<not> isListBlock (take k T)" using assms(6) isListBlock_take by blast
  have m: "after (mergeIntoPrevious True BackwardMerge (gen 0) s1)
      = \<lparr>doc = ((doc s1)(bid \<mapsto> T))(gen 0 := None), allLines = pre @ bid # post,
         editingBlockIds = [bid]\<rparr>"
    unfolding mergeIntoPrevious_at [OF al1 g(1,2)] tx using nl by simp
  have "((doc s1)(bid \<mapsto> T))(gen 0 := None) = (doc s)(bid \<mapsto> T)"
    using g(2,3) by (auto simp: s1 fun_eq_iff domIff)
  also have "\<dots> = doc s" using assms(17) by (rule map_upd_triv)
  finally have d: "((doc s1)(bid \<mapsto> T))(gen 0 := None) = doc s" .
  show ?thesis
    unfolding Let_def r1 s1_def [symmetric] r2 m d c1
    using assms(17) by (simp add: s1 al)
qed

theorem split_then_merge_restores_witness:
  "doc (after (handleKeyDown gen0 (backspaceAtStart (gen0 0))
          (after (handleKeyDown gen0 (enterAt ''a'' ''foobar'' 3) (singleBlock ''foobar'')))))
     ''a'' = Some ''foobar'' \<and>
   allLines (after (handleKeyDown gen0 (backspaceAtStart (gen0 0))
          (after (handleKeyDown gen0 (enterAt ''a'' ''foobar'' 3) (singleBlock ''foobar'')))))
     = [''a'']"
proof -
  have 1: "allLines (singleBlock ''foobar'') = [] @ ''a'' # []" "''a'' \<noteq> []"
    "gen0 0 \<notin> set (allLines (singleBlock ''foobar''))" "gen0 0 \<noteq> []"
    by (simp_all add: singleBlock_def gen0_def)
  have 2: "\<not> isListBlock ''foobar''"
    "take 3 ''foobar'' = [] \<or> splitIntoBlocks (take 3 ''foobar'') = [take 3 ''foobar'']"
    "drop 3 ''foobar'' = [] \<or> splitIntoBlocks (drop 3 ''foobar'') = [drop 3 ''foobar'']"
    by code_simp+
  have 3: "key (enterAt ''a'' ''foobar'' 3) = ''Enter''" "\<not> shiftKey (enterAt ''a'' ''foobar'' 3)"
    "blockId (enterAt ''a'' ''foobar'' 3) = Some ''a''"
    "blockMarkdown (enterAt ''a'' ''foobar'' 3) = ''foobar''"
    "caretPos (enterAt ''a'' ''foobar'' 3) = 3"
    "key (backspaceAtStart (gen0 0)) = ''Backspace''" "caretAtStart (backspaceAtStart (gen0 0))"
    "blockId (backspaceAtStart (gen0 0)) = Some (gen0 0)"
    "doc (singleBlock ''foobar'') ''a'' = Some ''foobar''"
    by (simp_all add: enterAt_def backspaceAtStart_def singleBlock_def)
  show ?thesis
    using split_then_merge_restores [where gen = gen0 and gen' = gen0 and T = "''foobar''" and k = 3,
        OF docInv_singleBlock 1 2 3]
    by (simp add: Let_def singleBlock_def)
qed

section \<open>Enter in a list block\<close>

lemma trimEnd_Cons_cases: "trimEnd (c # r) = [] \<or> trimEnd (c # r) = c # trimEnd r"
  by (simp add: trimEnd_def dropWhile_append)



lemma splitNl_addLines:
  "\<forall>l \<in> set ls. LF \<notin> set l \<Longrightarrow> splitNl (addLines ls @ x) = ls @ splitNl x"
proof (induction ls)
  case Nil
  show ?case by (simp add: addLines_def)
next
  case (Cons l ls)
  have "addLines (l # ls) @ x = l @ LF # (addLines ls @ x)" by (simp add: addLines_def)
  then have "splitNl (addLines (l # ls) @ x) = splitNl l @ splitNl (addLines ls @ x)"
    by (simp only: splitNl_append_LF)
  with Cons show ?case by (simp add: splitNl_single)
qed

lemma findLine_Some:
  "findLine ls cur = Some (i, x) \<Longrightarrow> i < length ls \<and> ls ! i = x \<and> trim x = trim cur"
proof (induction ls arbitrary: i)
  case Nil
  then show ?case by simp
next
  case (Cons l ls)
  show ?case
  proof (cases "trim l = trim cur")
    case True
    with Cons.prems show ?thesis by simp
  next
    case False
    with Cons.prems obtain j where j: "findLine ls cur = Some (j, x)" and i: "i = Suc j"
      by (auto split: option.splits)
    from Cons.IH [OF j] i show ?thesis by simp
  qed
qed

lemma parseListLine_parts:
  assumes "parseListLine line = Some (indent, marker, content)"
  shows "set indent \<subseteq> set line \<and> set marker \<subseteq> set line"
proof -
  from assms obtain n where i: "indent = takeWhile isWhiteSpace line"
    and m: "marker = take n (dropWhile isWhiteSpace line)"
    by (auto simp: parseListLine_def Let_def split: option.splits)
  have "set indent \<subseteq> set line" unfolding i by (meson set_takeWhileD subsetI)
  moreover have "set marker \<subseteq> set line"
    unfolding m by (meson in_set_takeD set_dropWhileD subsetI)
  ultimately show ?thesis by simp
qed






lemma trim_last: "trim x \<noteq> [] \<Longrightarrow> \<not> isWhiteSpace (last (trim x))"
proof -
  assume ne: "trim x \<noteq> []"
  let ?d = "dropWhile isWhiteSpace (rev (trimStart x))"
  have t: "trim x = rev ?d" by (simp add: trim_def trimEnd_def)
  with ne have "?d \<noteq> []" by simp
  then have "\<not> isWhiteSpace (hd ?d)" by (rule hd_dropWhile)
  moreover have "last (rev ?d) = hd ?d" using \<open>?d \<noteq> []\<close> by (simp add: last_rev)
  ultimately show ?thesis unfolding t by simp
qed

lemma trimEnd_after_text:
  assumes "d \<noteq> []" and "\<not> isWhiteSpace (last d)"
  shows "trimEnd (d @ x) = d @ trimEnd x"
proof -
  have "nonBlank d" using assms last_in_set unfolding nonBlank_def by blast
  obtain c r where cr: "rev d = c # r" using assms(1) by (cases "rev d") auto
  then have "c = last d" by (metis hd_rev list.sel(1))
  then have "\<not> isWhiteSpace c" using assms(2) by simp
  then have "dropWhile isWhiteSpace (rev d) = rev d" unfolding cr by simp
  then have "trimEnd d = d" by (simp add: trimEnd_def)
  show ?thesis
  proof (cases "nonBlank x")
    case True
    then show ?thesis by (rule trimEnd_append)
  next
    case False
    then have "trimEnd x = []" by (simp add: trimEnd_Nil_iff)
    moreover have "trimEnd (d @ x) = trimEnd d"
      using False by (simp add: trimEnd_def nonBlank_def dropWhile_append)
    ultimately show ?thesis using \<open>trimEnd d = d\<close> by simp
  qed
qed

lemma parseListLine_content:
  assumes "parseListLine line = Some (indent, marker, content)"
  shows "set content \<subseteq> set line"
proof -
  from assms obtain n where
    c: "content = takeWhile (\<lambda>c. \<not> isLineTerminator c) (drop n (dropWhile isWhiteSpace line))"
    by (auto simp: parseListLine_def Let_def split: option.splits)
  show ?thesis
  proof
    fix x assume "x \<in> set content"
    then have "x \<in> set (drop n (dropWhile isWhiteSpace line))"
      unfolding c by (rule set_takeWhileD [THEN conjunct1])
    then have "x \<in> set (dropWhile isWhiteSpace line)" by (rule in_set_dropD)
    then show "x \<in> set line" by (rule set_dropWhileD)
  qed
qed

text \<open>
  The other case of Enter in a list block: when the offset that the handler computes for
  the caret lies inside the trimmed content, the line is replaced by two lines that repeat
  the indent and the marker, with the content before and after that offset.
\<close>

lemma list_enter_splits_item:
  assumes "key e = ''Enter''" and "\<not> shiftKey e" and "blockId e = Some bid" and "bid \<noteq> []"
    and "isListBlock (blockMarkdown e)" and "dataLine e = Some cur"
    and "findLine (splitNl (blockMarkdown e)) cur = Some (i, line)"
    and "parseListLine line = Some (indent, marker, content)"
    and "int (startOffset e) - indexOf line (trim content) = int off"
    and "off < length (trim content)"
  shows "let lines = splitNl (blockMarkdown e);
             rest = trimEnd (LF # addLines (drop (Suc i) lines));
             new = addLines (take i lines) @ indent @ marker @ take off (trim content) @ [LF] @
                   indent @ marker @ drop off (trim content) @ rest;
             r = handleKeyDown gen e s
         in taken r = ListEnter \<and>
            after r = s\<lparr>doc := (doc s)(bid \<mapsto> new)\<rparr> \<and>
            allLines (after r) = allLines s \<and>
            splitNl new = take i lines @
              [indent @ marker @ take off (trim content),
               indent @ marker @ drop off (trim content)] @ tl (splitNl rest)"
proof -
  let ?lines = "splitNl (blockMarkdown e)"
  let ?B = "addLines (drop (Suc i) ?lines)"
  let ?rest = "trimEnd (LF # ?B)"
  let ?A = "addLines (take i ?lines)"
  let ?tc = "trim content"
  let ?l1 = "indent @ marker @ take off ?tc"
  let ?l2 = "indent @ marker @ drop off ?tc"
  let ?new = "?A @ ?l1 @ [LF] @ ?l2 @ ?rest"
  have ne: "?tc \<noteq> []" using assms(10) by auto
  have d: "drop off ?tc \<noteq> []" using assms(10) by simp
  then have "last (drop off ?tc) = last ?tc" by (simp add: last_drop assms(10))
  then have dl: "\<not> isWhiteSpace (last (drop off ?tc))" using trim_last [OF ne] by simp
  have l2: "?l2 \<noteq> []" "\<not> isWhiteSpace (last ?l2)" using d dl by simp_all
  have "trimEnd ((?A @ ?l1 @ [LF]) @ ?l2 @ (LF # ?B)) = (?A @ ?l1 @ [LF]) @ trimEnd (?l2 @ (LF # ?B))"
  proof (rule trimEnd_append)
    show "nonBlank (?l2 @ LF # ?B)"
      using l2 last_in_set [of ?l2] unfolding nonBlank_def by auto
  qed
  also have "trimEnd (?l2 @ (LF # ?B)) = ?l2 @ ?rest"
    using l2 by (rule trimEnd_after_text)
  finally have tr: "trimEnd (?A @ (?l1 @ [LF] @ ?l2 @ [LF]) @ ?B) = ?new" by simp
  have sl: "sliceTo ?tc (int off) = take off ?tc" "sliceFrom ?tc (int off) = drop off ?tc"
    using assms(10) by (simp_all add: sliceTo_def sliceFrom_def sliceIndex_def)
  have notEnd: "\<not> int (length ?tc) \<le> int (startOffset e) - indexOf line ?tc"
    using assms(9,10) by simp
  have newText: "listEnterText (blockMarkdown e) (startOffset e) cur = Some ?new"
    unfolding listEnterText_def Let_def assms(7) using assms(8) notEnd tr
    by (simp add: assms(9) sl)
  have r: "handleKeyDown gen e s
      = \<lparr>taken = ListEnter, after = s\<lparr>doc := (doc s)(bid \<mapsto> ?new)\<rparr>, caret = None\<rparr>"
    using assms(1-6) newText by (simp add: handleKeyDown_def listEnter_def)
  from findLine_Some [OF assms(7)] have i: "i < length ?lines" and li: "?lines ! i = line"
    by simp_all
  have nolf: "\<forall>l \<in> set ?lines. LF \<notin> set l" using splitNl_lines by blast
  have line: "LF \<notin> set line" using nolf i li nth_mem by blast
  have "set ?tc \<subseteq> set content"
    using set_trimStart [of content] set_trimEnd [of "trimStart content"] by (auto simp: trim_def)
  then have tc: "LF \<notin> set ?tc" using parseListLine_content [OF assms(8)] line by blast
  have n1: "LF \<notin> set ?l1" and n2: "LF \<notin> set ?l2"
    using parseListLine_parts [OF assms(8)] line tc
      set_take_subset [of off ?tc] set_drop_subset [of off ?tc]
    by auto
  have pre: "\<forall>l \<in> set (take i ?lines). LF \<notin> set l" using nolf by (meson in_set_takeD)
  have last: "splitNl (?l2 @ ?rest) = ?l2 # tl (splitNl ?rest)"
  proof -
    from trimEnd_Cons_cases [of LF ?B] show ?thesis
    proof
      assume "?rest = []"
      then show ?thesis using n2 by (simp add: splitNl_single del: set_append)
    next
      assume c: "?rest = LF # trimEnd ?B"
      have "splitNl (?l2 @ LF # trimEnd ?B) = splitNl ?l2 @ splitNl (trimEnd ?B)"
        by (rule splitNl_append_LF)
      then show ?thesis unfolding c using n2 by (simp add: splitNl_single del: set_append)
    qed
  qed
  have "splitNl ?new = take i ?lines @ splitNl (?l1 @ LF # ?l2 @ ?rest)"
    using splitNl_addLines [OF pre] by simp
  also have "splitNl (?l1 @ LF # ?l2 @ ?rest) = splitNl ?l1 @ splitNl (?l2 @ ?rest)"
    by (rule splitNl_append_LF)
  finally have "splitNl ?new = take i ?lines @ [?l1, ?l2] @ tl (splitNl ?rest)"
    using n1 last by (simp add: splitNl_single del: set_append)
  then show ?thesis unfolding Let_def r by simp
qed

text \<open>
  C4 (list item split). For the line \<open>- abcdef\<close> with the caret between \<open>abc\<close> and \<open>def\<close> the
  handler gives the lines \<open>- abc\<close> and \<open>- def\<close> in the same block. But it measures the caret
  against \<^verbatim>\<open>currentLineContent.indexOf(trimmedContent)\<close>, the first place where the text of the
  content occurs in the line, and that can lie in the marker. For the line \<open>10. 10\<close> the
  content \<open>10\<close> starts at offset 4 and is found at offset 0; with the caret at offset 5,
  between its two characters, the handler takes the caret to be past the end and
  continues the list instead of splitting the item.
\<close>

theorem list_split_offset_slip:
  "doc (after (handleKeyDown gen0 (listEnterAt ''a'' ''- abcdef'' 5 ''- abcdef'')
                 (singleBlock ''- abcdef''))) ''a'' = Some (''- abc'' @ [LF] @ ''- def'') \<and>
   allLines (after (handleKeyDown gen0 (listEnterAt ''a'' ''- abcdef'' 5 ''- abcdef'')
                 (singleBlock ''- abcdef''))) = [''a''] \<and>
   parseListLine ''10. 10'' = Some ([], ''10. '', ''10'') \<and>
   doc (after (handleKeyDown gen0 (listEnterAt ''a'' ''10. 10'' 5 ''10. 10'')
                 (singleBlock ''10. 10''))) ''a'' = Some (''10. 10'' @ [LF] @ ''10. &nbsp;'')"
  by code_simp

section \<open>The Bold command\<close>

lemma closest_rendered: "closest ''data-block-id'' (renderedAncestors s bid line) = None"
  by (simp add: closest_def renderedAncestors_def lineSpan_def blockElement_def docContainers_def
      getAttribute_def)

lemma wrapSelection_rendered:
  "startAncestors sel = renderedAncestors s bid line \<Longrightarrow> wrapSelection mark (Some sel) s = s"
  by (simp add: wrapSelection_def closest_rendered)

lemma wrapSelection_noop:
  "wrapSelection mark None s = s"
  "isCollapsed sel \<Longrightarrow> wrapSelection mark (Some sel) s = s"
  "closest ''data-block-id'' (startAncestors sel) = None \<Longrightarrow> wrapSelection mark (Some sel) s = s"
  by (simp_all add: wrapSelection_def)

lemma wrapSelection_splice:
  assumes "\<not> isCollapsed sel"
    and "closest ''data-block-id'' (startAncestors sel) = Some el"
    and "getAttribute el ''data-block-id'' = Some bid" and "bid \<noteq> []"
    and "doc s bid = Some content" and "content \<noteq> []" and "selectedText sel \<noteq> []"
  shows "wrapSelection mark (Some sel) s =
     s\<lparr>doc := (doc s)(bid \<mapsto> take (rangeStart sel) content @ mark @ selectedText sel @ mark @
                                drop (rangeEnd sel) content)\<rparr>"
  using assms by (simp add: wrapSelection_def)

text \<open>
  C9 (Bold). The command looks for an ancestor of the selection that has the attribute
  \<^verbatim>\<open>data-block-id\<close>. \<^verbatim>\<open>renderBlocks\<close> gives a block the attributes \<^verbatim>\<open>id\<close>, \<^verbatim>\<open>class\<close> and
  \<^verbatim>\<open>contenteditable\<close> or \<^verbatim>\<open>tabindex\<close>, its lines \<^verbatim>\<open>data-line\<close>, and no element around it has
  \<^verbatim>\<open>data-block-id\<close> either. So for a selection inside a rendered block no block is found and
  the document stays as it is: with \<open>hello\<close> selected in the block \<open>hello world\<close>, the text is
  still \<open>hello world\<close> after Bold, where splicing the marker would give \<open>**hello** world\<close>.
\<close>

theorem bold_on_rendered_block:
  "selectedText (selectIn (singleBlock ''hello world'') ''a'' ''hello world'' 0 5) = ''hello'' \<and>
   \<not> isCollapsed (selectIn (singleBlock ''hello world'') ''a'' ''hello world'' 0 5) \<and>
   doc (handleBold (Some (selectIn (singleBlock ''hello world'') ''a'' ''hello world'' 0 5))
          (singleBlock ''hello world'')) ''a'' = Some ''hello world''"
  by code_simp

end
